theory Spec2Isabelle
  imports Main "HOL-Library.Extended_Nat"
begin

section \<open>How the asynchronous code is read\<close>

text \<open>
  JavaScript runs one function at a time, and a function gives up control only at an
  \<^verbatim>\<open>await\<close> (or a \<^verbatim>\<open>yield\<close>).  The model has one step for each stretch of code between two
  such points: a suspended function resumes and runs to its next \<^verbatim>\<open>await\<close>, changing the
  variables it shares with the others.  Which of the suspended functions resumes next is
  left open: a run is any interleaving of these stretches.  Every order in which the job
  queue can resume them, for any timing of the promises awaited (those of the elements and
  of the mapper, and those of a source that answers its calls in the order in which they
  were made), is among the runs.  For pMap, \<open>run_any\<close> has in addition the runs with a source
  that answers its calls in another order.

  A mapper is a function of the element and the index.  Awaiting its result gives a value,
  the symbol \<^verbatim>\<open>pMapSkip\<close> or an exception; a mapper that throws at the call is treated as
  one that returns a rejected promise.  Every promise that is awaited settles.
\<close>

section \<open>Values shared by pMap and pMapIterable\<close>

text \<open>
  An element handed out by the source is awaited before the mapper sees it
  (\<^verbatim>\<open>await nextItem.value\<close>): it either settles to a value or rejects.
  One call of \<^verbatim>\<open>iterator.next()\<close> either yields such an element or throws; a source is
  the list of the results of its successive calls, and once the list is used up every
  further call answers \<^verbatim>\<open>{done: true}\<close>.  A synchronous iterator and an async generator
  settle their calls in the order in which they were made, so that the k-th
  \<^verbatim>\<open>await iterator.next()\<close> that resumes receives the k-th entry: this is how \<open>step\<close> and
  \<open>iter_step\<close> below read the source.  An object with a \<^verbatim>\<open>next()\<close> of its own may settle
  calls that are outstanding together in another order; for pMap, \<open>step_any\<close> adds these
  deliveries to those of \<open>step\<close>.
\<close>

datatype ('a, 'e) item = Settles 'a | Rejects 'e

datatype ('a, 'e) pull = Yields "('a, 'e) item" | Raises 'e

text \<open>What awaiting \<^verbatim>\<open>mapper(element, index)\<close> gives: a value, the symbol
  \<^verbatim>\<open>pMapSkip\<close>, or an exception.\<close>

datatype ('b, 'e) outcome = Value 'b | Skip | Failure 'e

text \<open>An entry of the \<^verbatim>\<open>result\<close> array (\<^verbatim>\<open>NewElement | typeof pMapSkip\<close>); a hole of the
  array is \<open>None\<close>.\<close>

datatype 'b mapped = Val 'b | pMapSkip

datatype type_error =
  ExpectedIterable | MapperRequired | ExpectedConcurrency | ExpectedBackpressure

datatype 'e reason = Thrown 'e | AggregateError "'e list" | TypeError type_error

datatype ('b, 'e) settlement = Resolved "'b mapped option list" | Rejected "'e reason"

text \<open>A JavaScript value passed as \<^verbatim>\<open>concurrency\<close> or \<^verbatim>\<open>backpressure\<close>: an integral
  number, a finite number that is not integral, an infinity, NaN, or a value that is
  not a number at all.\<close>

datatype js_number =
  Integer int | NonInteger | PositiveInfinity | NegativeInfinity | NaN | NotANumber

definition isSafeInteger :: "js_number \<Rightarrow> bool" where
  "isSafeInteger v = (case v of Integer i \<Rightarrow> \<bar>i\<bar> \<le> 2 ^ 53 - 1 | _ \<Rightarrow> False)"

text \<open>\<^verbatim>\<open>a >= b\<close> on these numbers, for the operands the validation compares (anything
  against NaN or a non-number is treated as false; a non-integral operand is never
  compared, since \<^verbatim>\<open>isSafeInteger\<close> is tested first).\<close>

fun js_ge :: "js_number \<Rightarrow> js_number \<Rightarrow> bool" where
  "js_ge (Integer a) (Integer b) = (b \<le> a)"
| "js_ge (Integer a) NegativeInfinity = True"
| "js_ge PositiveInfinity (Integer b) = True"
| "js_ge PositiveInfinity PositiveInfinity = True"
| "js_ge PositiveInfinity NegativeInfinity = True"
| "js_ge NegativeInfinity NegativeInfinity = True"
| "js_ge _ _ = False"

definition valid_concurrency :: "js_number \<Rightarrow> bool" where
  "valid_concurrency c =
     ((isSafeInteger c \<and> js_ge c (Integer 1)) \<or> c = PositiveInfinity)"

definition valid_backpressure :: "js_number \<Rightarrow> js_number \<Rightarrow> bool" where
  "valid_backpressure b c =
     ((isSafeInteger b \<and> js_ge b c) \<or> b = PositiveInfinity)"

text \<open>The bound a validated number stands for in the loops (\<^verbatim>\<open>i < concurrency\<close>,
  \<^verbatim>\<open>promises.length < backpressure\<close>).\<close>

definition bound_of :: "js_number \<Rightarrow> enat" where
  "bound_of v = (case v of Integer i \<Rightarrow> enat (nat i) | _ \<Rightarrow> \<infinity>)"

text \<open>The input: an object with \<^verbatim>\<open>Symbol.iterator\<close>, with \<^verbatim>\<open>Symbol.asyncIterator\<close>, with
  both, or with neither.\<close>

datatype 'src iterable =
  NotIterable | SyncIterable 'src | AsyncIterable 'src | SyncAndAsync 'src 'src

record ('a, 'b, 'e) base_params =
  mapper :: "'a \<Rightarrow> nat \<Rightarrow> ('b, 'e) outcome"
  concurrency :: enat

section \<open>pMap\<close>

record 'e abort_signal =
  sig_aborted :: bool
  sig_reason :: 'e

record 'e options =
  opt_concurrency :: "js_number option"
  opt_stopOnError :: "bool option"
  opt_signal :: "'e abort_signal option"

record ('a, 'b, 'e) params = "('a, 'b, 'e) base_params" +
  stopOnError :: bool
  signal :: "'e option"

text \<open>
  The asynchronous functions of pMap, each at the \<^verbatim>\<open>await\<close> where it is suspended.
  \<^verbatim>\<open>next()\<close> is called by the runner loop (with its loop variable), by the \<^verbatim>\<open>try\<close> block of
  a detached task, or by its \<^verbatim>\<open>catch\<close> block.
  \<^item> \<open>AwaitIterator c\<close>: inside \<^verbatim>\<open>next()\<close>, at \<^verbatim>\<open>await iterator.next()\<close>;
  \<^item> \<open>AwaitNext c r\<close>: the caller at \<^verbatim>\<open>await next()\<close>, the promise of \<^verbatim>\<open>next()\<close> already
    fulfilled (\<open>None\<close>) or rejected (\<open>Some e\<close>);
  \<^item> \<open>AwaitItem i x\<close>: the detached task of index \<open>i\<close> at \<^verbatim>\<open>await nextItem.value\<close>;
  \<^item> \<open>AwaitMapper i r\<close>: the same task at \<^verbatim>\<open>await mapper(element, index)\<close>.
\<close>

datatype caller = Runner nat | TryBlock | CatchBlock

datatype ('a, 'b, 'e) task =
    AwaitIterator caller
  | AwaitNext caller "'e option"
  | AwaitItem nat "('a, 'e) item"
  | AwaitMapper nat "('b, 'e) outcome"
  | Finished

text \<open>The variables of one call of pMap.  \<open>promise\<close> is the returned promise
  (\<^verbatim>\<open>resolve_\<close> and \<^verbatim>\<open>reject_\<close> act on it, the first one wins); \<open>listening\<close> says whether
  \<^verbatim>\<open>signalListener\<close> is registered.  \<open>mapper_calls\<close> and \<open>caught\<close> are history only: the
  arguments of every mapper invocation and the errors caught, in order; no branch reads
  them.\<close>

record ('a, 'b, 'e) state =
  result :: "'b mapped option list"
  errors :: "'e list"
  skippedIndexesMap :: "nat set"
  isRejected :: bool
  isResolved :: bool
  isIterableDone :: bool
  resolvingCount :: int
  currentIndex :: nat
  iterator :: "('a, 'e) pull list"
  promise :: "('b, 'e) settlement option"
  aborted :: bool
  listening :: bool
  tasks :: "('a, 'b, 'e) task list"
  mapper_calls :: "('a \<times> nat) list"
  caught :: "'e list"

definition settle ::
  "('b, 'e) settlement \<Rightarrow> ('a, 'b, 'e) state \<Rightarrow> ('a, 'b, 'e) state" where
  "settle x s = (case promise s of None \<Rightarrow> s\<lparr>promise := Some x\<rparr> | Some _ \<Rightarrow> s)"

definition cleanup :: "('a, 'b, 'e) state \<Rightarrow> ('a, 'b, 'e) state" where
  "cleanup s = s\<lparr>listening := False\<rparr>"

definition resolve ::
  "'b mapped option list \<Rightarrow> ('a, 'b, 'e) state \<Rightarrow> ('a, 'b, 'e) state" where
  "resolve v s = cleanup (settle (Resolved v) s)"

definition reject :: "'e reason \<Rightarrow> ('a, 'b, 'e) state \<Rightarrow> ('a, 'b, 'e) state" where
  "reject r s = cleanup (settle (Rejected r) (s\<lparr>isRejected := True, isResolved := True\<rparr>))"

text \<open>\<^verbatim>\<open>result[index] = value\<close>: an assignment past the end leaves holes.\<close>

definition store_at :: "nat \<Rightarrow> 'x \<Rightarrow> 'x option list \<Rightarrow> 'x option list" where
  "store_at i v xs =
     (if i < length xs then xs[i := Some v]
      else xs @ replicate (i - length xs) None @ [Some v])"

text \<open>The loop over \<^verbatim>\<open>result.entries()\<close> that leaves out the staged indices.\<close>

definition pureResult :: "nat set \<Rightarrow> 'x list \<Rightarrow> 'x list" where
  "pureResult skipped xs =
     map snd (filter (\<lambda>(i, v). i \<notin> skipped) (List.enumerate 0 xs))"

text \<open>The start of \<^verbatim>\<open>next()\<close>, up to its first \<^verbatim>\<open>await\<close>.\<close>

definition call_next :: "caller \<Rightarrow> ('a, 'b, 'e) state \<Rightarrow> ('a, 'b, 'e) task" where
  "call_next c s = (if isResolved s then AwaitNext c None else AwaitIterator c)"

text \<open>\<^verbatim>\<open>next()\<close> after \<^verbatim>\<open>await iterator.next()\<close>: the new state, what the caller waits
  on, and the detached task started (if any).\<close>

definition finish ::
  "('a, 'b, 'e) params \<Rightarrow> ('a, 'b, 'e) state \<Rightarrow> ('a, 'b, 'e) state" where
  "finish P s =
     (if resolvingCount s = 0 \<and> \<not> isResolved s then
        (if \<not> stopOnError P \<and> errors s \<noteq> [] then reject (AggregateError (errors s)) s
         else
           (let s1 = s\<lparr>isResolved := True\<rparr> in
            if skippedIndexesMap s1 = {} then resolve (result s1) s1
            else resolve (pureResult (skippedIndexesMap s1) (result s1)) s1))
      else s)"

definition after_pull ::
  "('a, 'b, 'e) params \<Rightarrow> caller \<Rightarrow> ('a, 'b, 'e) state \<Rightarrow>
   ('a, 'b, 'e) state \<times> ('a, 'b, 'e) task \<times> ('a, 'b, 'e) task list" where
  "after_pull P c s =
     (case iterator s of
        [] \<Rightarrow>
          (finish P (s\<lparr>currentIndex := currentIndex s + 1, isIterableDone := True\<rparr>),
           AwaitNext c None, [])
      | Raises e # rest \<Rightarrow> (s\<lparr>iterator := rest\<rparr>, AwaitNext c (Some e), [])
      | Yields x # rest \<Rightarrow>
          (s\<lparr>iterator := rest, currentIndex := currentIndex s + 1,
             resolvingCount := resolvingCount s + 1\<rparr>,
           AwaitNext c None, [AwaitItem (currentIndex s) x]))"

text \<open>The \<^verbatim>\<open>catch\<close> block of a detached task.\<close>

definition catch ::
  "('a, 'b, 'e) params \<Rightarrow> 'e \<Rightarrow> ('a, 'b, 'e) state \<Rightarrow>
   ('a, 'b, 'e) state \<times> ('a, 'b, 'e) task" where
  "catch P e s0 =
     (let s = s0\<lparr>caught := caught s0 @ [e]\<rparr> in
      if stopOnError P then (reject (Thrown e) s, Finished)
      else
        (let s1 = s\<lparr>errors := errors s @ [e], resolvingCount := resolvingCount s - 1\<rparr>
         in (s1, call_next CatchBlock s1)))"

text \<open>The \<^verbatim>\<open>try\<close> block after \<^verbatim>\<open>await mapper(element, index)\<close> returned.\<close>

definition record_result ::
  "nat \<Rightarrow> 'b mapped \<Rightarrow> ('a, 'b, 'e) state \<Rightarrow> ('a, 'b, 'e) state \<times> ('a, 'b, 'e) task" where
  "record_result i v s0 =
     (let s = (if v = pMapSkip then s0\<lparr>skippedIndexesMap := insert i (skippedIndexesMap s0)\<rparr>
               else s0);
          s1 = s\<lparr>result := store_at i v (result s),
                 resolvingCount := resolvingCount s - 1\<rparr>
      in (s1, call_next TryBlock s1))"

text \<open>The runner loop from its test \<^verbatim>\<open>i < concurrency\<close> on.\<close>

definition runner :: "('a, 'b, 'e) params \<Rightarrow> nat \<Rightarrow> ('a, 'b, 'e) state \<Rightarrow> ('a, 'b, 'e) task" where
  "runner P i s = (if enat i < concurrency P then call_next (Runner i) s else Finished)"

text \<open>One suspended function resumes and runs to its next \<^verbatim>\<open>await\<close> (or to its end).\<close>

fun resume ::
  "('a, 'b, 'e) params \<Rightarrow> ('a, 'b, 'e) task \<Rightarrow> ('a, 'b, 'e) state \<Rightarrow>
   (('a, 'b, 'e) state \<times> ('a, 'b, 'e) task \<times> ('a, 'b, 'e) task list) option" where
  "resume P (AwaitIterator c) s = Some (after_pull P c s)"
| "resume P (AwaitNext (Runner i) (Some e)) s =
     Some (reject (Thrown e) (s\<lparr>caught := caught s @ [e]\<rparr>), Finished, [])"
| "resume P (AwaitNext (Runner i) None) s =
     Some (s, if isIterableDone s \<or> isRejected s then Finished else runner P (i + 1) s, [])"
| "resume P (AwaitNext TryBlock (Some e)) s = Some (let (s', t) = catch P e s in (s', t, []))"
| "resume P (AwaitNext TryBlock None) s = Some (s, Finished, [])"
| "resume P (AwaitNext CatchBlock (Some e)) s =
     Some (reject (Thrown e) (s\<lparr>caught := caught s @ [e]\<rparr>), Finished, [])"
| "resume P (AwaitNext CatchBlock None) s = Some (s, Finished, [])"
| "resume P (AwaitItem i (Rejects e)) s = Some (let (s', t) = catch P e s in (s', t, []))"
| "resume P (AwaitItem i (Settles x)) s =
     Some (if isResolved s then (s, Finished, [])
           else (s\<lparr>mapper_calls := mapper_calls s @ [(x, i)]\<rparr>,
                 AwaitMapper i (mapper P x i), []))"
| "resume P (AwaitMapper i (Value v)) s = Some (let (s', t) = record_result i (Val v) s in (s', t, []))"
| "resume P (AwaitMapper i Skip) s = Some (let (s', t) = record_result i pMapSkip s in (s', t, []))"
| "resume P (AwaitMapper i (Failure e)) s = Some (let (s', t) = catch P e s in (s', t, []))"
| "resume P Finished s = None"

text \<open>What can happen next: a suspended function (by its position in \<open>tasks\<close>) resumes,
  or the abort signal fires.\<close>

datatype event = Resume nat | Abort

definition signalListener :: "'e \<Rightarrow> ('a, 'b, 'e) state \<Rightarrow> ('a, 'b, 'e) state" where
  "signalListener r s = reject (Thrown r) s"

definition step ::
  "('a, 'b, 'e) params \<Rightarrow> event \<Rightarrow> ('a, 'b, 'e) state \<Rightarrow> ('a, 'b, 'e) state option" where
  "step P ev s =
     (case ev of
        Resume k \<Rightarrow>
          (if k < length (tasks s) then
             (case resume P (tasks s ! k) s of
                None \<Rightarrow> None
              | Some (s', t, new) \<Rightarrow> Some (s'\<lparr>tasks := (tasks s)[k := t] @ new\<rparr>))
           else None)
      | Abort \<Rightarrow>
          (case signal P of
             None \<Rightarrow> None
           | Some r \<Rightarrow>
               (if aborted s then None
                else Some (let s1 = s\<lparr>aborted := True\<rparr>
                           in if listening s1 then signalListener r s1 else s1))))"

fun run ::
  "('a, 'b, 'e) params \<Rightarrow> event list \<Rightarrow> ('a, 'b, 'e) state \<Rightarrow> ('a, 'b, 'e) state option" where
  "run P [] s = Some s"
| "run P (ev # evs) s = (case step P ev s of None \<Rightarrow> None | Some s' \<Rightarrow> run P evs s')"

text \<open>
  pMap calls \<^verbatim>\<open>iterator.next()\<close> while earlier calls are still outstanding: the runner loop
  and every detached task call \<^verbatim>\<open>next()\<close> on their own.  \<open>step\<close> answers the outstanding calls
  in the order in which they were made, as a synchronous iterator and an async generator
  do.  An asynchronous iterable of another kind may settle the promise of a later call
  first.  The function that resumes then receives, not the oldest outstanding answer, but
  the one at position \<open>j\<close> among the outstanding ones; a position past the end of the list
  is the answer \<^verbatim>\<open>{done: true}\<close>, and the answers overtaken stay outstanding.  The code that
  runs after the \<^verbatim>\<open>await\<close> is the same.  As in \<open>step\<close>, which of the functions suspended at
  \<^verbatim>\<open>await iterator.next()\<close> made which of the outstanding calls is not recorded: any of
  them may resume with the answer.
\<close>

fun is_AwaitIterator :: "('a, 'b, 'e) task \<Rightarrow> bool" where
  "is_AwaitIterator (AwaitIterator _) = True"
| "is_AwaitIterator _ = False"

text \<open>The calls of \<^verbatim>\<open>iterator.next()\<close> that have been made and not answered yet.\<close>

definition pending_pulls :: "('a, 'b, 'e) state \<Rightarrow> nat" where
  "pending_pulls s = length (filter is_AwaitIterator (tasks s))"

definition after_pull_at ::
  "('a, 'b, 'e) params \<Rightarrow> nat \<Rightarrow> caller \<Rightarrow> ('a, 'b, 'e) state \<Rightarrow>
   ('a, 'b, 'e) state \<times> ('a, 'b, 'e) task \<times> ('a, 'b, 'e) task list" where
  "after_pull_at P j c s =
     (let (s', t, new) = after_pull P c (s\<lparr>iterator := drop j (iterator s)\<rparr>)
      in (s'\<lparr>iterator := take j (iterator s) @ iterator s'\<rparr>, t, new))"

text \<open>What can happen next when the source may answer in any order: an event of \<open>step\<close>,
  or the \<^verbatim>\<open>await iterator.next()\<close> of function \<open>k\<close> resumes with the answer at position
  \<open>j \<ge> 1\<close> among the outstanding ones.\<close>

datatype delivery = Event event | Overtake nat nat

definition step_any ::
  "('a, 'b, 'e) params \<Rightarrow> delivery \<Rightarrow> ('a, 'b, 'e) state \<Rightarrow> ('a, 'b, 'e) state option" where
  "step_any P d s =
     (case d of
        Event ev \<Rightarrow> step P ev s
      | Overtake k j \<Rightarrow>
          (if k < length (tasks s) \<and> 0 < j \<and> j < pending_pulls s then
             (case tasks s ! k of
                AwaitIterator c \<Rightarrow>
                  (case after_pull_at P j c s of
                     (s', t, new) \<Rightarrow> Some (s'\<lparr>tasks := (tasks s)[k := t] @ new\<rparr>))
              | _ \<Rightarrow> None)
           else None))"

fun run_any ::
  "('a, 'b, 'e) params \<Rightarrow> delivery list \<Rightarrow> ('a, 'b, 'e) state \<Rightarrow>
   ('a, 'b, 'e) state option" where
  "run_any P [] s = Some s"
| "run_any P (d # ds) s =
     (case step_any P d s of None \<Rightarrow> None | Some s' \<Rightarrow> run_any P ds s')"

text \<open>The body of the promise executor after validation.\<close>

definition start ::
  "('a, 'b, 'e) params \<Rightarrow> ('a, 'e) pull list \<Rightarrow> bool \<Rightarrow> ('a, 'b, 'e) state" where
  "start P src already_aborted =
     (let s0 = \<lparr>result = [], errors = [], skippedIndexesMap = {}, isRejected = False,
                isResolved = False, isIterableDone = False, resolvingCount = 0,
                currentIndex = 0, iterator = src, promise = None,
                aborted = already_aborted, listening = False, tasks = [],
                mapper_calls = [], caught = []\<rparr>;
          s1 = (case signal P of
                  None \<Rightarrow> s0
                | Some r \<Rightarrow>
                    (if aborted s0 then reject (Thrown r) s0 else s0)\<lparr>listening := True\<rparr>)
      in s1\<lparr>tasks := [runner P 0 s1]\<rparr>)"

definition pMap_source :: "'src iterable \<Rightarrow> 'src option" where
  "pMap_source it =
     (case it of NotIterable \<Rightarrow> None | SyncIterable src \<Rightarrow> Some src
      | AsyncIterable src \<Rightarrow> Some src | SyncAndAsync src _ \<Rightarrow> Some src)"

definition pMap ::
  "('a, 'e) pull list iterable \<Rightarrow> ('a \<Rightarrow> nat \<Rightarrow> ('b, 'e) outcome) option \<Rightarrow> 'e options \<Rightarrow>
   'e reason + (('a, 'b, 'e) params \<times> ('a, 'b, 'e) state)" where
  "pMap input f opts =
     (case pMap_source input of
        None \<Rightarrow> Inl (TypeError ExpectedIterable)
      | Some src \<Rightarrow>
          (case f of
             None \<Rightarrow> Inl (TypeError MapperRequired)
           | Some m \<Rightarrow>
               (let c = (case opt_concurrency opts of None \<Rightarrow> PositiveInfinity | Some c \<Rightarrow> c)
                in if \<not> valid_concurrency c then Inl (TypeError ExpectedConcurrency)
                   else
                     (let P = \<lparr>mapper = m, concurrency = bound_of c,
                                stopOnError = (case opt_stopOnError opts of None \<Rightarrow> True | Some b \<Rightarrow> b),
                                signal = map_option sig_reason (opt_signal opts)\<rparr>
                      in Inr (P, start P src
                                (case opt_signal opts of None \<Rightarrow> False | Some g \<Rightarrow> sig_aborted g))))))"

section \<open>pMapIterable\<close>

record iter_options =
  opt_concurrency_it :: "js_number option"
  opt_backpressure :: "js_number option"

record ('a, 'b, 'e) iter_params = "('a, 'b, 'e) base_params" +
  backpressure :: enat

text \<open>The objects a spawned promise resolves to: \<^verbatim>\<open>{done: true}\<close>,
  \<^verbatim>\<open>{done: true, value: pMapSkip}\<close>, \<^verbatim>\<open>{done: false, value: returnValue}\<close> and \<^verbatim>\<open>{error}\<close>,
  with the three properties the consumer loop destructures (a missing one is
  \<^verbatim>\<open>undefined\<close>).  The values thrown are taken to be truthy, as every \<^verbatim>\<open>Error\<close> object is,
  so that \<^verbatim>\<open>if (error)\<close> holds for every \<^verbatim>\<open>{error}\<close>.\<close>

datatype ('b, 'e) iter_result = DoneOnly | DoneSkip | NotDone 'b | ErrorOnly 'e

definition error_of :: "('b, 'e) iter_result \<Rightarrow> 'e option" where
  "error_of r = (case r of ErrorOnly e \<Rightarrow> Some e | _ \<Rightarrow> None)"

definition done_of :: "('b, 'e) iter_result \<Rightarrow> bool" where
  "done_of r = (case r of DoneOnly \<Rightarrow> True | DoneSkip \<Rightarrow> True | _ \<Rightarrow> False)"

definition value_of :: "('b, 'e) iter_result \<Rightarrow> 'b mapped option" where
  "value_of r = (case r of DoneSkip \<Rightarrow> Some pMapSkip | NotDone v \<Rightarrow> Some (Val v) | _ \<Rightarrow> None)"

text \<open>
  A promise pushed by \<^verbatim>\<open>trySpawn\<close>, at the \<^verbatim>\<open>await\<close> where its asynchronous function is
  suspended:
  \<^item> \<open>PullPending\<close>: at \<^verbatim>\<open>await iterator.next()\<close>;
  \<^item> \<open>ItemPending x\<close>: at \<^verbatim>\<open>await value\<close>;
  \<^item> \<open>MapperPending r\<close>: at \<^verbatim>\<open>await mapper(...)\<close>;
  \<^item> \<open>ThenPending r\<close>: the function has returned \<open>Inr r\<close> (or thrown, \<open>Inl e\<close>) and the
    callback given to \<^verbatim>\<open>.then\<close> has not run yet;
  \<^item> \<open>Settled r\<close>: the promise stored in \<^verbatim>\<open>promises\<close> is settled.
\<close>

datatype ('a, 'b, 'e) handle =
    PullPending
  | ItemPending "('a, 'e) item"
  | MapperPending "('b, 'e) outcome"
  | ThenPending "'e + ('b, 'e) iter_result"
  | Settled "'e + ('b, 'e) iter_result"

text \<open>The generator: not started, at \<^verbatim>\<open>await promises[0]\<close> (with the promise awaited),
  at \<^verbatim>\<open>yield\<close>, returned, or ended by an exception.\<close>

datatype 'e consumer = NotStarted | AwaitHead nat | AtYield | Returned | Threw 'e

text \<open>The variables of the generator.  \<open>handles\<close> holds every promise \<^verbatim>\<open>trySpawn\<close> created;
  \<open>promises\<close> is the queue, of positions in \<open>handles\<close>.  \<open>yielded\<close> is the sequence of values
  yielded so far; \<open>mapper_calls_it\<close> is history only.\<close>

record ('a, 'b, 'e) iter_state =
  promises :: "nat list"
  runningMappersCount :: int
  isDone :: bool
  index :: nat
  iterator_it :: "('a, 'e) pull list"
  handles :: "('a, 'b, 'e) handle list"
  consumer :: "'e consumer"
  yielded :: "'b mapped option list"
  mapper_calls_it :: "('a \<times> nat) list"

definition below :: "int \<Rightarrow> enat \<Rightarrow> bool" where
  "below i b = (case b of enat n \<Rightarrow> i < int n | \<infinity> \<Rightarrow> True)"

definition trySpawn ::
  "('a, 'b, 'e) iter_params \<Rightarrow> ('a, 'b, 'e) iter_state \<Rightarrow> ('a, 'b, 'e) iter_state" where
  "trySpawn P s =
     (if isDone s \<or>
         \<not> (below (runningMappersCount s) (concurrency P) \<and>
            below (int (length (promises s))) (backpressure P))
      then s
      else s\<lparr>handles := handles s @ [PullPending],
             promises := promises s @ [length (handles s)]\<rparr>)"

text \<open>\<^verbatim>\<open>promises.indexOf(promise)\<close> and \<^verbatim>\<open>promises.splice(index, 1)\<close>.\<close>

fun indexOf :: "nat list \<Rightarrow> nat \<Rightarrow> int" where
  "indexOf [] k = - 1"
| "indexOf (p # ps) k = (if p = k then 0 else (let i = indexOf ps k in if i < 0 then - 1 else i + 1))"

definition splice1 :: "nat \<Rightarrow> 'x list \<Rightarrow> 'x list" where
  "splice1 i xs = take i xs @ drop (i + 1) xs"

text \<open>The callback given to \<^verbatim>\<open>.then\<close>.\<close>

definition on_result ::
  "nat \<Rightarrow> ('b, 'e) iter_result \<Rightarrow> ('a, 'b, 'e) iter_state \<Rightarrow> ('a, 'b, 'e) iter_state" where
  "on_result k r s =
     (if done_of r \<and> value_of r = Some pMapSkip then
        (let i = indexOf (promises s) k
         in if i > 0 then s\<lparr>promises := splice1 (nat i) (promises s)\<rparr> else s)
      else s)"

definition set_handle ::
  "nat \<Rightarrow> ('a, 'b, 'e) handle \<Rightarrow> ('a, 'b, 'e) iter_state \<Rightarrow> ('a, 'b, 'e) iter_state" where
  "set_handle k h s = s\<lparr>handles := (handles s)[k := h]\<rparr>"

text \<open>The asynchronous function of promise \<open>k\<close> resumes and runs to its next \<^verbatim>\<open>await\<close>.\<close>

fun resume_handle ::
  "('a, 'b, 'e) iter_params \<Rightarrow> nat \<Rightarrow> ('a, 'b, 'e) handle \<Rightarrow> ('a, 'b, 'e) iter_state \<Rightarrow>
   ('a, 'b, 'e) iter_state option" where
  "resume_handle P k PullPending s =
     Some (case iterator_it s of
             [] \<Rightarrow> set_handle k (ThenPending (Inr DoneOnly)) s
           | Raises e # rest \<Rightarrow> set_handle k (ThenPending (Inl e)) (s\<lparr>iterator_it := rest\<rparr>)
           | Yields x # rest \<Rightarrow>
               set_handle k (ItemPending x)
                 (trySpawn P (s\<lparr>iterator_it := rest,
                                 runningMappersCount := runningMappersCount s + 1\<rparr>)))"
| "resume_handle P k (ItemPending (Rejects e)) s =
     Some (set_handle k (ThenPending (Inr (ErrorOnly e))) (s\<lparr>isDone := True\<rparr>))"
| "resume_handle P k (ItemPending (Settles x)) s =
     Some (set_handle k (MapperPending (mapper P x (index s)))
             (s\<lparr>index := index s + 1,
                mapper_calls_it := mapper_calls_it s @ [(x, index s)]\<rparr>))"
| "resume_handle P k (MapperPending (Failure e)) s =
     Some (set_handle k (ThenPending (Inr (ErrorOnly e))) (s\<lparr>isDone := True\<rparr>))"
| "resume_handle P k (MapperPending Skip) s =
     Some (set_handle k (ThenPending (Inr DoneSkip))
             (s\<lparr>runningMappersCount := runningMappersCount s - 1\<rparr>))"
| "resume_handle P k (MapperPending (Value v)) s =
     Some (set_handle k (ThenPending (Inr (NotDone v)))
             (trySpawn P (s\<lparr>runningMappersCount := runningMappersCount s - 1\<rparr>)))"
| "resume_handle P k (ThenPending (Inl e)) s = Some (set_handle k (Settled (Inl e)) s)"
| "resume_handle P k (ThenPending (Inr r)) s =
     Some (set_handle k (Settled (Inr r)) (on_result k r s))"
| "resume_handle P k (Settled r) s = None"

text \<open>The test of the \<^verbatim>\<open>while\<close> loop and the \<^verbatim>\<open>await promises[0]\<close> that follows it.\<close>

definition loop_head :: "('a, 'b, 'e) iter_state \<Rightarrow> ('a, 'b, 'e) iter_state" where
  "loop_head s =
     (case promises s of [] \<Rightarrow> s\<lparr>consumer := Returned\<rparr>
      | k # _ \<Rightarrow> s\<lparr>consumer := AwaitHead k\<rparr>)"

text \<open>The loop body after \<^verbatim>\<open>await promises[0]\<close> delivered \<open>r\<close>.\<close>

definition loop_body ::
  "('a, 'b, 'e) iter_params \<Rightarrow> ('b, 'e) iter_result \<Rightarrow> ('a, 'b, 'e) iter_state \<Rightarrow>
   ('a, 'b, 'e) iter_state" where
  "loop_body P r s0 =
     (let s = s0\<lparr>promises := tl (promises s0)\<rparr> in
      case error_of r of
        Some e \<Rightarrow> s\<lparr>consumer := Threw e\<rparr>
      | None \<Rightarrow>
          if done_of r then s\<lparr>consumer := Returned\<rparr>
          else
            (let s1 = trySpawn P s in
             if value_of r = Some pMapSkip then loop_head s1
             else s1\<lparr>yielded := yielded s1 @ [value_of r], consumer := AtYield\<rparr>))"

text \<open>What can happen next: the function of a promise resumes, the consumer asks the
  generator for its next value, or the generator resumes from \<^verbatim>\<open>await promises[0]\<close>.\<close>

datatype iter_event = ResumeHandle nat | CallNext | ResumeGenerator

definition iter_step ::
  "('a, 'b, 'e) iter_params \<Rightarrow> iter_event \<Rightarrow> ('a, 'b, 'e) iter_state \<Rightarrow>
   ('a, 'b, 'e) iter_state option" where
  "iter_step P ev s =
     (case ev of
        ResumeHandle k \<Rightarrow>
          (if k < length (handles s) then resume_handle P k (handles s ! k) s else None)
      | CallNext \<Rightarrow>
          (case consumer s of
             NotStarted \<Rightarrow> Some (loop_head (trySpawn P s))
           | AtYield \<Rightarrow> Some (loop_head s)
           | _ \<Rightarrow> None)
      | ResumeGenerator \<Rightarrow>
          (case consumer s of
             AwaitHead k \<Rightarrow>
               (if k < length (handles s) then
                  (case handles s ! k of
                     Settled (Inl e) \<Rightarrow> Some (s\<lparr>consumer := Threw e\<rparr>)
                   | Settled (Inr r) \<Rightarrow> Some (loop_body P r s)
                   | _ \<Rightarrow> None)
                else None)
           | _ \<Rightarrow> None))"

fun iter_run ::
  "('a, 'b, 'e) iter_params \<Rightarrow> iter_event list \<Rightarrow> ('a, 'b, 'e) iter_state \<Rightarrow>
   ('a, 'b, 'e) iter_state option" where
  "iter_run P [] s = Some s"
| "iter_run P (ev # evs) s =
     (case iter_step P ev s of None \<Rightarrow> None | Some s' \<Rightarrow> iter_run P evs s')"

definition iter_start :: "('a, 'e) pull list \<Rightarrow> ('a, 'b, 'e) iter_state" where
  "iter_start src =
     \<lparr>promises = [], runningMappersCount = 0, isDone = False, index = 0,
      iterator_it = src, handles = [], consumer = NotStarted, yielded = [],
      mapper_calls_it = []\<rparr>"

definition pMapIterable_source :: "'src iterable \<Rightarrow> 'src option" where
  "pMapIterable_source it =
     (case it of NotIterable \<Rightarrow> None | SyncIterable src \<Rightarrow> Some src
      | AsyncIterable src \<Rightarrow> Some src | SyncAndAsync _ src \<Rightarrow> Some src)"

definition pMapIterable ::
  "('a, 'e) pull list iterable \<Rightarrow> ('a \<Rightarrow> nat \<Rightarrow> ('b, 'e) outcome) option \<Rightarrow> iter_options \<Rightarrow>
   type_error + (('a, 'b, 'e) iter_params \<times> ('a, 'b, 'e) iter_state)" where
  "pMapIterable input f opts =
     (case pMapIterable_source input of
        None \<Rightarrow> Inl ExpectedIterable
      | Some src \<Rightarrow>
          (case f of
             None \<Rightarrow> Inl MapperRequired
           | Some m \<Rightarrow>
               (let c = (case opt_concurrency_it opts of None \<Rightarrow> PositiveInfinity | Some c \<Rightarrow> c);
                    b = (case opt_backpressure opts of None \<Rightarrow> c | Some b \<Rightarrow> b)
                in if \<not> valid_concurrency c then Inl ExpectedConcurrency
                   else if \<not> valid_backpressure b c then Inl ExpectedBackpressure
                   else Inr (\<lparr>mapper = m, concurrency = bound_of c, backpressure = bound_of b\<rparr>,
                             iter_start src))))"

section \<open>Notions used to state the properties\<close>

text \<open>"A positive integer or Infinity", as the documentation of \<^verbatim>\<open>concurrency\<close> and
  \<^verbatim>\<open>backpressure\<close> words it.\<close>

definition positive_integer_or_Infinity :: "js_number \<Rightarrow> bool" where
  "positive_integer_or_Infinity v =
     (case v of Integer i \<Rightarrow> 1 \<le> i | PositiveInfinity \<Rightarrow> True | _ \<Rightarrow> False)"

text \<open>The values the two option defaults give.\<close>

definition concurrency_arg :: "js_number option \<Rightarrow> js_number" where
  "concurrency_arg c = (case c of None \<Rightarrow> PositiveInfinity | Some v \<Rightarrow> v)"

definition backpressure_arg :: "iter_options \<Rightarrow> js_number" where
  "backpressure_arg opts =
     (case opt_backpressure opts of
        None \<Rightarrow> concurrency_arg (opt_concurrency_it opts)
      | Some v \<Rightarrow> v)"

text \<open>The mapper invocations in flight: the functions suspended at
  \<^verbatim>\<open>await mapper(...)\<close>.\<close>

fun is_MapperPending :: "('a, 'b, 'e) handle \<Rightarrow> bool" where
  "is_MapperPending (MapperPending _) = True"
| "is_MapperPending _ = False"

definition running_mappers_it :: "('a, 'b, 'e) iter_state \<Rightarrow> nat" where
  "running_mappers_it s = length (filter is_MapperPending (handles s))"

fun is_AwaitMapper :: "('a, 'b, 'e) task \<Rightarrow> bool" where
  "is_AwaitMapper (AwaitMapper _ _) = True"
| "is_AwaitMapper _ = False"

definition running_mappers :: "('a, 'b, 'e) state \<Rightarrow> nat" where
  "running_mappers s = length (filter is_AwaitMapper (tasks s))"

text \<open>The queue of pMapIterable is within the backpressure bound.\<close>

definition queue_bounded :: "('a, 'b, 'e) iter_params \<Rightarrow> ('a, 'b, 'e) iter_state \<Rightarrow> bool" where
  "queue_bounded P s = (enat (length (promises s)) \<le> backpressure P)"


text \<open>What \<^verbatim>\<open>next()\<close> settles the promise with when it finds the source exhausted and
  nothing running.\<close>

definition final :: "('a, 'b, 'e) params \<Rightarrow> ('a, 'b, 'e) state \<Rightarrow> ('b, 'e) settlement" where
  "final P s =
     (if \<not> stopOnError P \<and> errors s \<noteq> [] then Rejected (AggregateError (errors s))
      else Resolved (if skippedIndexesMap s = {} then result s
                     else pureResult (skippedIndexesMap s) (result s)))"

text \<open>The error a suspended task of the \<^verbatim>\<open>try\<close> block is about to catch.\<close>

fun throws :: "('a, 'b, 'e) task \<Rightarrow> 'e option" where
  "throws (AwaitNext TryBlock (Some e)) = Some e"
| "throws (AwaitItem i (Rejects e)) = Some e"
| "throws (AwaitMapper i (Failure e)) = Some e"
| "throws _ = None"

text \<open>What a returned mapper value leaves in \<^verbatim>\<open>result\<close>.\<close>

fun stored :: "('b, 'e) outcome \<Rightarrow> 'b mapped option" where
  "stored (Value v) = Some (Val v)"
| "stored Skip = Some pMapSkip"
| "stored (Failure e) = None"


text \<open>The promise is pending exactly as long as \<^verbatim>\<open>isResolved\<close> is false, and
  \<^verbatim>\<open>isRejected\<close> implies \<^verbatim>\<open>isResolved\<close>.\<close>

definition flags_ok :: "('a, 'b, 'e) state \<Rightarrow> bool" where
  "flags_ok s = (((promise s = None) = (\<not> isResolved s)) \<and> (isRejected s \<longrightarrow> isResolved s))"

text \<open>While the promise is pending, a supplied signal has not fired and its listener is
  registered.\<close>

definition listening_ok :: "('a, 'b, 'e) params \<Rightarrow> ('a, 'b, 'e) state \<Rightarrow> bool" where
  "listening_ok P s =
     (signal P \<noteq> None \<longrightarrow> promise s = None \<longrightarrow> listening s \<and> \<not> aborted s)"

text \<open>No suspended function is left and the signal cannot fire (any more): nothing can
  happen.\<close>

definition quiescent :: "('a, 'b, 'e) params \<Rightarrow> ('a, 'b, 'e) state \<Rightarrow> bool" where
  "quiescent P s = (list_all (\<lambda>t. t = Finished) (tasks s) \<and> (signal P = None \<or> aborted s))"

text \<open>The runs in which the source answers its calls in the order in which they were
  made.\<close>

fun is_Event :: "delivery \<Rightarrow> bool" where
  "is_Event (Event _) = True"
| "is_Event (Overtake _ _) = False"

definition in_order :: "delivery list \<Rightarrow> bool" where
  "in_order ds = list_all is_Event ds"

text \<open>The states pMapIterable goes through on an empty source.\<close>

definition empty_stream :: "nat \<Rightarrow> ('a, 'b, 'e) iter_state" where
  "empty_stream i =
     (iter_start [])
       \<lparr>promises := (if 1 \<le> i \<and> i \<le> 3 then [0] else []),
        handles := (if i = 0 then [] else if i = 1 then [PullPending]
                    else if i = 2 then [ThenPending (Inr DoneOnly)]
                    else [Settled (Inr DoneOnly)]),
        consumer := (if i = 0 then NotStarted else if i \<le> 3 then AwaitHead 0 else Returned)\<rparr>"

text \<open>The index of the detached task a suspended function belongs to, while that task
  is counted in \<^verbatim>\<open>resolvingCount\<close>.\<close>

fun task_index :: "('a, 'b, 'e) task \<Rightarrow> nat list" where
  "task_index (AwaitItem i _) = [i]"
| "task_index (AwaitMapper i _) = [i]"
| "task_index _ = []"

definition live_indices :: "('a, 'b, 'e) task list \<Rightarrow> nat list" where
  "live_indices ts = concat (map task_index ts)"

text \<open>What the task of index \<open>i\<close> comes to on the elements \<open>items\<close>: the element is
  awaited, then the mapper is applied to it.\<close>

definition outcome_at ::
  "('a, 'b, 'e) params \<Rightarrow> ('a, 'e) item list \<Rightarrow> nat \<Rightarrow> ('b, 'e) outcome" where
  "outcome_at P items i =
     (case items ! i of Rejects e \<Rightarrow> Failure e | Settles x \<Rightarrow> mapper P x i)"

fun is_Failure :: "('b, 'e) outcome \<Rightarrow> bool" where
  "is_Failure (Failure _) = True"
| "is_Failure _ = False"

fun error_list :: "('b, 'e) outcome \<Rightarrow> 'e list" where
  "error_list (Failure e) = [e]"
| "error_list _ = []"

text \<open>The values of a list of outcomes, in order, the skipped ones left out.\<close>

fun values_in_order :: "('b, 'e) outcome list \<Rightarrow> 'b mapped option list" where
  "values_in_order [] = []"
| "values_in_order (Value v # rs) = Some (Val v) # values_in_order rs"
| "values_in_order (_ # rs) = values_in_order rs"

definition outcomes :: "('a, 'b, 'e) params \<Rightarrow> ('a, 'e) item list \<Rightarrow> ('b, 'e) outcome list" where
  "outcomes P items = map (outcome_at P items) [0..<length items]"

definition result_at :: "'x option list \<Rightarrow> nat \<Rightarrow> 'x option" where
  "result_at xs i = (if i < length xs then xs ! i else None)"

text \<open>The invariant of a call of pMap on a source that yields \<open>items\<close> and never throws,
  without a signal, and (when \<^verbatim>\<open>stopOnError\<close> is true) without a failing element.\<close>

definition pulled :: "('a, 'e) item list \<Rightarrow> ('a, 'b, 'e) state \<Rightarrow> nat" where
  "pulled items s = length items - length (iterator s)"

definition no_fail_fast_failure :: "('a, 'b, 'e) params \<Rightarrow> ('a, 'e) item list \<Rightarrow> bool" where
  "no_fail_fast_failure P items =
     (stopOnError P \<longrightarrow> (\<forall>i < length items. \<not> is_Failure (outcome_at P items i)))"

definition source_ok :: "('a, 'e) item list \<Rightarrow> ('a, 'b, 'e) state \<Rightarrow> bool" where
  "source_ok items s =
     (iterator s = drop (pulled items s) (map Yields items) \<and>
      (iterator s \<noteq> [] \<longrightarrow> currentIndex s = pulled items s))"

fun valid_task ::
  "('a, 'b, 'e) params \<Rightarrow> ('a, 'e) item list \<Rightarrow> nat \<Rightarrow> ('a, 'b, 'e) task \<Rightarrow> bool" where
  "valid_task P items p (AwaitItem i x) = (i < p \<and> p \<le> length items \<and> items ! i = x)"
| "valid_task P items p (AwaitMapper i r) =
     (i < p \<and> p \<le> length items \<and>
      (case items ! i of Settles x \<Rightarrow> r = mapper P x i | Rejects _ \<Rightarrow> False))"
| "valid_task P items p (AwaitNext c (Some e)) = False"
| "valid_task P items p _ = True"

definition tasks_ok ::
  "('a, 'b, 'e) params \<Rightarrow> ('a, 'e) item list \<Rightarrow> ('a, 'b, 'e) state \<Rightarrow> bool" where
  "tasks_ok P items s =
     ((\<forall>t \<in> set (tasks s). valid_task P items (pulled items s) t) \<and>
      distinct (live_indices (tasks s)))"

definition count_ok :: "('a, 'b, 'e) state \<Rightarrow> bool" where
  "count_ok s =
     (\<not> isResolved s \<longrightarrow> resolvingCount s = int (length (live_indices (tasks s))))"

definition finished_indices ::
  "('a, 'e) item list \<Rightarrow> ('a, 'b, 'e) state \<Rightarrow> nat set" where
  "finished_indices items s =
     {i. i < pulled items s \<and> i \<notin> set (live_indices (tasks s))}"

definition stored_ok ::
  "('a, 'b, 'e) params \<Rightarrow> ('a, 'e) item list \<Rightarrow> ('a, 'b, 'e) state \<Rightarrow> bool" where
  "stored_ok P items s =
     (length (result s) \<le> pulled items s \<and>
      (\<forall>i. result_at (result s) i =
            (if i \<in> finished_indices items s then stored (outcome_at P items i) else None)) \<and>
      skippedIndexesMap s = {i \<in> finished_indices items s. outcome_at P items i = Skip})"

definition errors_ok ::
  "('a, 'b, 'e) params \<Rightarrow> ('a, 'e) item list \<Rightarrow> ('a, 'b, 'e) state \<Rightarrow> bool" where
  "errors_ok P items s =
     ((\<exists>fs. distinct fs \<and>
            set fs = {i \<in> finished_indices items s. is_Failure (outcome_at P items i)} \<and>
            errors s = concat (map (\<lambda>i. error_list (outcome_at P items i)) fs)) \<and>
      caught s = errors s)"

definition settled_ok :: "('a, 'b, 'e) params \<Rightarrow> ('a, 'b, 'e) state \<Rightarrow> bool" where
  "settled_ok P s =
     (isResolved s \<longrightarrow>
        live_indices (tasks s) = [] \<and> iterator s = [] \<and> promise s = Some (final P s))"

fun pulls :: "('a, 'b, 'e) params \<Rightarrow> ('a, 'b, 'e) state \<Rightarrow> ('a, 'b, 'e) task \<Rightarrow> bool" where
  "pulls P s (AwaitIterator c) = True"
| "pulls P s (AwaitNext (Runner i) None) = (\<not> isIterableDone s \<and> enat (i + 1) < concurrency P)"
| "pulls P s _ = False"

definition progress_ok :: "('a, 'b, 'e) params \<Rightarrow> ('a, 'b, 'e) state \<Rightarrow> bool" where
  "progress_ok P s =
     (\<not> isResolved s \<longrightarrow>
        live_indices (tasks s) \<noteq> [] \<or> (\<exists>t \<in> set (tasks s). pulls P s t))"

definition sched_inv ::
  "('a, 'b, 'e) params \<Rightarrow> ('a, 'e) item list \<Rightarrow> ('a, 'b, 'e) state \<Rightarrow> bool" where
  "sched_inv P items s =
     (flags_ok s \<and> source_ok items s \<and> tasks_ok P items s \<and> count_ok s \<and>
      stored_ok P items s \<and> errors_ok P items s \<and> settled_ok P s \<and> progress_ok P s)"

text \<open>A bound on the steps a call of pMap can still take: every element left in the
  source and every suspended function has a weight, and so has a signal that can still
  fire.\<close>

fun weight :: "('a, 'b, 'e) state \<Rightarrow> ('a, 'b, 'e) task \<Rightarrow> nat" where
  "weight s (AwaitIterator c) = 2"
| "weight s (AwaitNext (Runner i) None) = (if isIterableDone s \<or> isRejected s then 1 else 4)"
| "weight s (AwaitNext TryBlock (Some e)) = 4"
| "weight s (AwaitNext c r) = 1"
| "weight s (AwaitItem i x) = 4"
| "weight s (AwaitMapper i r) = 3"
| "weight s Finished = 0"

definition remaining :: "('a, 'b, 'e) params \<Rightarrow> ('a, 'b, 'e) state \<Rightarrow> nat" where
  "remaining P s =
     7 * length (iterator s) + sum_list (map (weight s) (tasks s)) +
     (if signal P \<noteq> None \<and> \<not> aborted s then 1 else 0)"

text \<open>\<^verbatim>\<open>isResolved\<close> is only set together with \<^verbatim>\<open>isRejected\<close> or after \<^verbatim>\<open>isIterableDone\<close>.\<close>

definition latch_ok :: "('a, 'b, 'e) state \<Rightarrow> bool" where
  "latch_ok s = (isResolved s \<longrightarrow> isRejected s \<or> isIterableDone s)"

text \<open>The invariant of a call of pMap with \<^verbatim>\<open>stopOnError: true\<close> and without a signal, on
  any source: the promise is rejected with the first error caught, unless it was resolved
  before any error was caught, which needs an exhausted source and no running task.\<close>

definition fail_fast_ok :: "('a, 'b, 'e) state \<Rightarrow> bool" where
  "fail_fast_ok s =
     ((\<not> isRejected s \<longrightarrow> caught s = []) \<and>
      (isRejected s \<longrightarrow>
         caught s \<noteq> [] \<and>
         (promise s = Some (Rejected (Thrown (hd (caught s)))) \<or>
          (\<exists>v. promise s = Some (Resolved v)))) \<and>
      ((\<exists>r. promise s = Some (Rejected r)) \<longrightarrow> isRejected s) \<and>
      ((\<exists>v. promise s = Some (Resolved v)) \<longrightarrow>
         live_indices (tasks s) = [] \<and> iterator s = []) \<and>
      count_ok s \<and> flags_ok s)"

text \<open>Whether a suspended function of pMap holds one of the \<^verbatim>\<open>concurrency\<close> places: a
  detached task does, from its start until the \<^verbatim>\<open>next()\<close> it calls at its end has started
  the following task or has found the source exhausted.\<close>

fun occupies :: "('a, 'b, 'e) task \<Rightarrow> nat" where
  "occupies (AwaitItem _ _) = 1"
| "occupies (AwaitMapper _ _) = 1"
| "occupies (AwaitIterator TryBlock) = 1"
| "occupies (AwaitIterator CatchBlock) = 1"
| "occupies (AwaitNext TryBlock (Some _)) = 1"
| "occupies _ = 0"

definition places :: "('a, 'b, 'e) task list \<Rightarrow> nat" where
  "places ts = sum_list (map occupies ts)"

fun by_runner :: "('a, 'b, 'e) task \<Rightarrow> bool" where
  "by_runner (AwaitIterator (Runner _)) = True"
| "by_runner (AwaitNext (Runner _) _) = True"
| "by_runner _ = False"

text \<open>The runner loop is the first function of \<open>tasks\<close>; the tasks it has started hold no
  more places than it has made iterations.\<close>

definition runner_ok :: "('a, 'b, 'e) params \<Rightarrow> ('a, 'b, 'e) state \<Rightarrow> bool" where
  "runner_ok P s =
     (case tasks s of
        [] \<Rightarrow> False
      | r # ts \<Rightarrow>
          (\<forall>t \<in> set ts. \<not> by_runner t) \<and>
          (case r of
             AwaitIterator (Runner i) \<Rightarrow> enat i < concurrency P \<and> places ts \<le> i
           | AwaitNext (Runner i) _ \<Rightarrow> enat i < concurrency P \<and> places ts \<le> i + 1
           | Finished \<Rightarrow> enat (places ts) \<le> concurrency P
           | _ \<Rightarrow> False))"

section \<open>Validation\<close>

lemma valid_concurrency_positive:
  "valid_concurrency c \<Longrightarrow> positive_integer_or_Infinity c"
  by (cases c) (auto simp: valid_concurrency_def positive_integer_or_Infinity_def isSafeInteger_def)

lemma valid_backpressure_ge:
  assumes "valid_concurrency c" and "valid_backpressure b c"
  shows "positive_integer_or_Infinity b \<and> bound_of c \<le> bound_of b"
  using assms
  by (cases b; cases c)
     (auto simp: valid_concurrency_def valid_backpressure_def positive_integer_or_Infinity_def
        isSafeInteger_def bound_of_def)

lemma pMap_Inl_cases:
  "pMap input f opts = Inl r \<Longrightarrow> r \<in> TypeError ` {ExpectedIterable, MapperRequired, ExpectedConcurrency}"
  by (auto simp: pMap_def Let_def split: option.splits if_splits)

text \<open>
  Claim C6.  Both entry points answer with a TypeError as soon as they are called, and
  with nothing else, when the input is not iterable, when the mapper is not a function,
  or when \<^verbatim>\<open>concurrency\<close> is not a positive integer or Infinity; pMapIterable does so
  too when \<^verbatim>\<open>backpressure\<close> is not a positive integer or Infinity or is below
  \<^verbatim>\<open>concurrency\<close>.  pMap's answer \<open>Inl (TypeError t)\<close> is the rejection of the returned
  promise by the throwing executor, pMapIterable's \<open>Inl t\<close> is the exception it throws; in
  both cases no state of the scheduler exists yet, so that no item has been pulled and
  no mapper has run.
\<close>

theorem validation_reports_TypeError:
  "(input = NotIterable \<or> f = None \<or>
      \<not> positive_integer_or_Infinity (concurrency_arg (opt_concurrency opts))
    \<longrightarrow> (\<exists>t. pMap input f opts = Inl (TypeError t))) \<and>
   (input = NotIterable \<or> f = None \<or>
      \<not> positive_integer_or_Infinity (concurrency_arg (opt_concurrency_it iopts)) \<or>
      \<not> positive_integer_or_Infinity (backpressure_arg iopts) \<or>
      bound_of (backpressure_arg iopts) < bound_of (concurrency_arg (opt_concurrency_it iopts))
    \<longrightarrow> (\<exists>t. pMapIterable input f iopts = Inl t))"
proof (intro conjI impI)
  assume bad: "input = NotIterable \<or> f = None \<or>
      \<not> positive_integer_or_Infinity (concurrency_arg (opt_concurrency opts))"
  have "\<not> valid_concurrency (concurrency_arg (opt_concurrency opts))"
    if "\<not> positive_integer_or_Infinity (concurrency_arg (opt_concurrency opts))"
    using that valid_concurrency_positive by blast
  with bad show "\<exists>t. pMap input f opts = Inl (TypeError t)"
    by (cases input; cases f)
       (auto simp: pMap_def pMap_source_def concurrency_arg_def Let_def split: option.splits)
next
  let ?c = "concurrency_arg (opt_concurrency_it iopts)"
  let ?b = "backpressure_arg iopts"
  assume bad: "input = NotIterable \<or> f = None \<or> \<not> positive_integer_or_Infinity ?c \<or>
      \<not> positive_integer_or_Infinity ?b \<or> bound_of ?b < bound_of ?c"
  have invalid: "\<not> valid_concurrency ?c \<or> \<not> valid_backpressure ?b ?c"
    if "\<not> positive_integer_or_Infinity ?c \<or> \<not> positive_integer_or_Infinity ?b \<or>
        bound_of ?b < bound_of ?c"
    using that valid_concurrency_positive valid_backpressure_ge [of ?c ?b]
    by (auto simp: not_le [symmetric])
  show "\<exists>t. pMapIterable input f iopts = Inl t"
  proof (cases "input = NotIterable \<or> f = None")
    case True
    then show ?thesis
      by (cases input; cases f)
         (auto simp: pMapIterable_def pMapIterable_source_def Let_def split: option.splits)
  next
    case False
    with bad invalid have "\<not> valid_concurrency ?c \<or> \<not> valid_backpressure ?b ?c"
      by blast
    with False show ?thesis
      by (cases input; cases f)
         (auto simp: pMapIterable_def pMapIterable_source_def concurrency_arg_def
            backpressure_arg_def Let_def split: option.splits)
  qed
qed

theorem validation_reports_TypeError_witness:
  "(\<exists>t. pMap (SyncIterable [Yields (Settles (1::int))])
          (Some (\<lambda>x i. (Value x :: (int, nat) outcome)))
          \<lparr>opt_concurrency = Some (Integer 0), opt_stopOnError = None,
           opt_signal = (None :: nat abort_signal option)\<rparr> = Inl (TypeError t)) \<and>
   (\<exists>t. pMapIterable (SyncIterable [Yields (Settles (1::int))])
          (Some (\<lambda>x i. (Value x :: (int, nat) outcome)))
          \<lparr>opt_concurrency_it = Some (Integer 3), opt_backpressure = Some (Integer 2)\<rparr> = Inl t)"
  using validation_reports_TypeError
    [of "SyncIterable [Yields (Settles (1::int))]"
        "Some (\<lambda>x i. (Value x :: (int, nat) outcome))"
        "\<lparr>opt_concurrency = Some (Integer 0), opt_stopOnError = None,
          opt_signal = (None :: nat abort_signal option)\<rparr>"
        "\<lparr>opt_concurrency_it = Some (Integer 3), opt_backpressure = Some (Integer 2)\<rparr>"]
  by (simp add: positive_integer_or_Infinity_def concurrency_arg_def backpressure_arg_def
      bound_of_def)

section \<open>pMapIterable on concrete inputs\<close>

lemmas iter_defs =
  pMapIterable_def pMapIterable_source_def valid_concurrency_def valid_backpressure_def
  isSafeInteger_def bound_of_def iter_start_def iter_step_def trySpawn_def below_def
  loop_head_def loop_body_def set_handle_def on_result_def error_of_def done_of_def
  value_of_def splice1_def

text \<open>
  Claim C2 at \<^verbatim>\<open>pMapIterable([1, 2], x => x === 1 ? pMapSkip : 2 * x, {concurrency: 1})\<close>.
  The promise of the first element resolves to \<^verbatim>\<open>{done: true, value: pMapSkip}\<close> while
  it is the head of the queue; the generator then takes \<^verbatim>\<open>done\<close> for the end of the
  source and returns.  Nothing is yielded, the second element is never pulled, and no
  event is possible afterwards.
\<close>

theorem skip_at_head_ends_the_stream:
  "case pMapIterable (SyncIterable [Yields (Settles (1::int)), Yields (Settles 2)])
          (Some (\<lambda>x i. if x = 1 then Skip else (Value (2 * x) :: (int, nat) outcome)))
          \<lparr>opt_concurrency_it = Some (Integer 1), opt_backpressure = None\<rparr> of
     Inl _ \<Rightarrow> False
   | Inr (P, s0) \<Rightarrow>
       (case iter_run P [CallNext, ResumeHandle 0, ResumeHandle 0, ResumeHandle 0,
                         ResumeHandle 0, ResumeGenerator] s0 of
          None \<Rightarrow> False
        | Some s \<Rightarrow>
            consumer s = Returned \<and> yielded s = [] \<and>
            iterator_it s = [Yields (Settles 2)] \<and>
            mapper_calls_it s = [(1, 0)] \<and>
            (\<forall>ev. iter_step P ev s = None))"
  by (simp add: iter_defs split: iter_event.split)

text \<open>
  Claim C3 at \<^verbatim>\<open>pMapIterable(source, x => 2 * x, {concurrency: 1, backpressure: 2})\<close>
  for an asynchronous source of 1, 2, 3 and a consumer that has taken one value.  When
  the first mapper returns, \<^verbatim>\<open>trySpawn\<close> pushes a second promise, which waits for the
  source; the generator takes the first value and calls \<^verbatim>\<open>trySpawn\<close> again, and since
  \<^verbatim>\<open>runningMappersCount\<close> is only incremented after the pull, a third promise is pushed.
  Both pulls then complete and two mapper invocations are in flight at once.
\<close>

theorem two_mappers_run_with_concurrency_one:
  "case pMapIterable (AsyncIterable [Yields (Settles (1::int)), Yields (Settles 2), Yields (Settles 3)])
          (Some (\<lambda>x i. (Value (2 * x) :: (int, nat) outcome)))
          \<lparr>opt_concurrency_it = Some (Integer 1), opt_backpressure = Some (Integer 2)\<rparr> of
     Inl _ \<Rightarrow> False
   | Inr (P, s0) \<Rightarrow>
       (case iter_run P [CallNext, ResumeHandle 0, ResumeHandle 0, ResumeHandle 0,
                         ResumeHandle 0, ResumeGenerator, ResumeHandle 1, ResumeHandle 2,
                         ResumeHandle 1, ResumeHandle 2] s0 of
          None \<Rightarrow> False
        | Some s \<Rightarrow>
            concurrency P = 1 \<and> running_mappers_it s = 2 \<and> runningMappersCount s = 2 \<and>
            handles s = [Settled (Inr (NotDone 2)), MapperPending (Value 4),
                         MapperPending (Value 6)] \<and>
            yielded s = [Some (Val 2)])"
  by (simp add: iter_defs running_mappers_it_def one_enat_def)

section \<open>pMapIterable: the queue never exceeds the backpressure bound\<close>

lemma iter_run_invariant:
  assumes step: "\<And>ev s s'. I s \<Longrightarrow> iter_step P ev s = Some s' \<Longrightarrow> I s'"
    and "I s" and "iter_run P evs s = Some s'"
  shows "I s'"
  using assms(2,3)
proof (induction evs arbitrary: s)
  case Nil
  then show ?case by simp
next
  case (Cons ev evs)
  then obtain s1 where s1: "iter_step P ev s = Some s1" and rest: "iter_run P evs s1 = Some s'"
    by (auto split: option.splits)
  from step [OF Cons.prems(1) s1] rest show ?case
    by (rule Cons.IH)
qed

lemma below_Suc_le: "below (int n) b \<Longrightarrow> enat (Suc n) \<le> b"
  by (cases b) (auto simp: below_def)

lemma queue_bounded_shorter:
  "queue_bounded P s \<Longrightarrow> length (promises s') \<le> length (promises s) \<Longrightarrow> queue_bounded P s'"
  unfolding queue_bounded_def
  by (meson enat_ord_simps(1) order_trans)

lemma queue_bounded_trySpawn: "queue_bounded P s \<Longrightarrow> queue_bounded P (trySpawn P s)"
  by (auto simp: trySpawn_def queue_bounded_def below_Suc_le)

lemma promises_set_handle [simp]: "promises (set_handle k h s) = promises s"
  by (simp add: set_handle_def)

lemma queue_bounded_set_handle [simp]: "queue_bounded P (set_handle k h s) = queue_bounded P s"
  by (simp add: queue_bounded_def)

lemma queue_bounded_on_result: "queue_bounded P s \<Longrightarrow> queue_bounded P (on_result k r s)"
  by (rule queue_bounded_shorter) (auto simp: on_result_def splice1_def Let_def)

lemma queue_bounded_loop_head [simp]: "queue_bounded P (loop_head s) = queue_bounded P s"
  by (simp add: loop_head_def queue_bounded_def split: list.splits)

lemma queue_bounded_loop_body: "queue_bounded P s \<Longrightarrow> queue_bounded P (loop_body P r s)"
proof -
  assume b: "queue_bounded P s"
  have tl: "queue_bounded P (s\<lparr>promises := tl (promises s)\<rparr>)"
    by (rule queue_bounded_shorter [OF b]) simp
  have c: "queue_bounded P (s\<lparr>promises := tl (promises s), consumer := x\<rparr>)" for x
    using tl by (simp add: queue_bounded_def)
  have y: "queue_bounded P (t\<lparr>yielded := ys, consumer := x\<rparr>) = queue_bounded P t" for t ys x
    by (simp add: queue_bounded_def)
  show ?thesis
    using c queue_bounded_trySpawn [OF tl]
    by (auto simp: loop_body_def Let_def y split: option.splits)
qed

lemma queue_bounded_resume_handle:
  assumes "queue_bounded P s" and "resume_handle P k h s = Some s'"
  shows "queue_bounded P s'"
proof -
  have upd: "queue_bounded P (s\<lparr>iterator_it := a\<rparr>) = queue_bounded P s"
    "queue_bounded P (s\<lparr>isDone := b\<rparr>) = queue_bounded P s"
    "queue_bounded P (s\<lparr>runningMappersCount := c\<rparr>) = queue_bounded P s"
    "queue_bounded P (s\<lparr>iterator_it := a, runningMappersCount := c\<rparr>) = queue_bounded P s"
    "queue_bounded P (s\<lparr>index := d, mapper_calls_it := e\<rparr>) = queue_bounded P s"
    for a b c d e
    by (simp_all add: queue_bounded_def)
  show ?thesis
    using assms
    by (cases "(P, k, h, s)" rule: resume_handle.cases)
       (auto simp: upd queue_bounded_trySpawn queue_bounded_on_result
          split: list.splits pull.splits)
qed

lemma queue_bounded_step:
  assumes "queue_bounded P s" and "iter_step P ev s = Some s'"
  shows "queue_bounded P s'"
proof (cases ev)
  case (ResumeHandle k)
  with assms show ?thesis
    by (auto simp: iter_step_def split: if_splits dest: queue_bounded_resume_handle)
next
  case CallNext
  with assms show ?thesis
    by (auto simp: iter_step_def queue_bounded_trySpawn split: consumer.splits)
next
  case ResumeGenerator
  have c: "queue_bounded P (s\<lparr>consumer := x\<rparr>) = queue_bounded P s" for x
    by (simp add: queue_bounded_def)
  from ResumeGenerator assms show ?thesis
    by (auto simp: iter_step_def c queue_bounded_loop_body
        split: consumer.splits if_splits handle.splits sum.splits)
qed

lemma pMapIterable_Inr:
  assumes "pMapIterable input f opts = Inr (P, s0)"
  shows "concurrency P \<le> backpressure P \<and> 1 \<le> concurrency P \<and>
         (\<exists>src. pMapIterable_source input = Some src \<and> s0 = iter_start src) \<and>
         (\<exists>m. f = Some m \<and> mapper P = m)"
proof -
  let ?c = "concurrency_arg (opt_concurrency_it opts)"
  let ?b = "backpressure_arg opts"
  from assms have v: "valid_concurrency ?c" "valid_backpressure ?b ?c"
    and P: "concurrency P = bound_of ?c" "backpressure P = bound_of ?b"
    and rest: "(\<exists>src. pMapIterable_source input = Some src \<and> s0 = iter_start src)"
       "(\<exists>m. f = Some m \<and> mapper P = m)"
    by (auto simp: pMapIterable_def concurrency_arg_def backpressure_arg_def Let_def
        split: option.splits if_splits)
  have "1 \<le> bound_of ?c"
    using v(1)
    by (cases ?c) (auto simp: valid_concurrency_def isSafeInteger_def bound_of_def one_enat_def)
  with valid_backpressure_ge [OF v] P rest show ?thesis
    by simp
qed

text \<open>
  Claim C9.  Whatever has happened since a successful call of pMapIterable, the queue
  \<^verbatim>\<open>promises\<close> (pending and completed-but-unconsumed promises alike) holds at most
  \<^verbatim>\<open>backpressure\<close> entries; and a call that passes validation has
  \<^verbatim>\<open>backpressure >= concurrency\<close>.
\<close>

theorem queue_within_backpressure:
  assumes "pMapIterable input f opts = Inr (P, s0)"
    and "iter_run P evs s0 = Some s"
  shows "enat (length (promises s)) \<le> backpressure P \<and> concurrency P \<le> backpressure P"
proof -
  from pMapIterable_Inr [OF assms(1)] obtain src where
    le: "concurrency P \<le> backpressure P" and s0: "s0 = iter_start src"
    by blast
  have init: "queue_bounded P s0"
    by (simp add: s0 iter_start_def queue_bounded_def zero_enat_def [symmetric])
  have "queue_bounded P s"
    by (rule iter_run_invariant [where I = "queue_bounded P", OF _ init assms(2)])
       (rule queue_bounded_step)
  with le show ?thesis
    by (simp add: queue_bounded_def)
qed

theorem queue_within_backpressure_witness:
  "enat (length (promises (the (iter_run
      \<lparr>mapper = (\<lambda>x i. (Value (2 * x) :: (int, nat) outcome)), concurrency = 1, backpressure = 2\<rparr>
      [CallNext, ResumeHandle 0, ResumeHandle 0, ResumeHandle 0, ResumeHandle 0,
       ResumeGenerator, ResumeHandle 1, ResumeHandle 2]
      (iter_start [Yields (Settles (1::int)), Yields (Settles 2), Yields (Settles 3)])))))
    \<le> 2 \<and> length (promises (the (iter_run
      \<lparr>mapper = (\<lambda>x i. (Value (2 * x) :: (int, nat) outcome)), concurrency = 1, backpressure = 2\<rparr>
      [CallNext, ResumeHandle 0, ResumeHandle 0, ResumeHandle 0, ResumeHandle 0,
       ResumeGenerator, ResumeHandle 1, ResumeHandle 2]
      (iter_start [Yields (Settles (1::int)), Yields (Settles 2), Yields (Settles 3)])))) = 2"
  using queue_within_backpressure
    [of "AsyncIterable [Yields (Settles (1::int)), Yields (Settles 2), Yields (Settles 3)]"
        "Some (\<lambda>x i. (Value (2 * x) :: (int, nat) outcome))"
        "\<lparr>opt_concurrency_it = Some (Integer 1), opt_backpressure = Some (Integer 2)\<rparr>"
        "\<lparr>mapper = (\<lambda>x i. (Value (2 * x) :: (int, nat) outcome)), concurrency = 1, backpressure = 2\<rparr>"
        "iter_start [Yields (Settles (1::int)), Yields (Settles 2), Yields (Settles 3)]"
        "[CallNext, ResumeHandle 0, ResumeHandle 0, ResumeHandle 0, ResumeHandle 0,
          ResumeGenerator, ResumeHandle 1, ResumeHandle 2]"
        "the (iter_run
      \<lparr>mapper = (\<lambda>x i. (Value (2 * x) :: (int, nat) outcome)), concurrency = 1, backpressure = 2\<rparr>
      [CallNext, ResumeHandle 0, ResumeHandle 0, ResumeHandle 0, ResumeHandle 0,
       ResumeGenerator, ResumeHandle 1, ResumeHandle 2]
      (iter_start [Yields (Settles (1::int)), Yields (Settles 2), Yields (Settles 3)]))"]
  by (simp add: iter_defs one_enat_def numeral_eq_enat)

section \<open>pMap: the steps\<close>

subsection \<open>What the helpers change\<close>

lemma settle_fields [simp]:
  "result (settle x s) = result s" "errors (settle x s) = errors s"
  "skippedIndexesMap (settle x s) = skippedIndexesMap s"
  "isRejected (settle x s) = isRejected s" "isResolved (settle x s) = isResolved s"
  "isIterableDone (settle x s) = isIterableDone s"
  "resolvingCount (settle x s) = resolvingCount s" "currentIndex (settle x s) = currentIndex s"
  "iterator (settle x s) = iterator s" "aborted (settle x s) = aborted s"
  "listening (settle x s) = listening s" "tasks (settle x s) = tasks s"
  "mapper_calls (settle x s) = mapper_calls s" "caught (settle x s) = caught s"
  "promise (settle x s) = (case promise s of None \<Rightarrow> Some x | Some y \<Rightarrow> Some y)"
  by (simp_all add: settle_def split: option.splits)

lemma reject_fields [simp]:
  "result (reject r s) = result s" "errors (reject r s) = errors s"
  "skippedIndexesMap (reject r s) = skippedIndexesMap s"
  "isRejected (reject r s)" "isResolved (reject r s)"
  "isIterableDone (reject r s) = isIterableDone s"
  "resolvingCount (reject r s) = resolvingCount s" "currentIndex (reject r s) = currentIndex s"
  "iterator (reject r s) = iterator s" "aborted (reject r s) = aborted s"
  "\<not> listening (reject r s)" "tasks (reject r s) = tasks s"
  "mapper_calls (reject r s) = mapper_calls s" "caught (reject r s) = caught s"
  "promise (reject r s) = (case promise s of None \<Rightarrow> Some (Rejected r) | Some y \<Rightarrow> Some y)"
  by (simp_all add: reject_def cleanup_def)

lemma resolve_fields [simp]:
  "result (resolve v s) = result s" "errors (resolve v s) = errors s"
  "skippedIndexesMap (resolve v s) = skippedIndexesMap s"
  "isRejected (resolve v s) = isRejected s" "isResolved (resolve v s) = isResolved s"
  "isIterableDone (resolve v s) = isIterableDone s"
  "resolvingCount (resolve v s) = resolvingCount s" "currentIndex (resolve v s) = currentIndex s"
  "iterator (resolve v s) = iterator s" "aborted (resolve v s) = aborted s"
  "\<not> listening (resolve v s)" "tasks (resolve v s) = tasks s"
  "mapper_calls (resolve v s) = mapper_calls s" "caught (resolve v s) = caught s"
  "promise (resolve v s) = (case promise s of None \<Rightarrow> Some (Resolved v) | Some y \<Rightarrow> Some y)"
  by (simp_all add: resolve_def cleanup_def)

lemma finish_fields [simp]:
  "result (finish P s) = result s" "errors (finish P s) = errors s"
  "skippedIndexesMap (finish P s) = skippedIndexesMap s"
  "isIterableDone (finish P s) = isIterableDone s"
  "resolvingCount (finish P s) = resolvingCount s" "currentIndex (finish P s) = currentIndex s"
  "iterator (finish P s) = iterator s" "aborted (finish P s) = aborted s"
  "tasks (finish P s) = tasks s"
  "mapper_calls (finish P s) = mapper_calls s" "caught (finish P s) = caught s"
  by (simp_all add: finish_def Let_def)

lemma finish_flags:
  "isResolved (finish P s) = (isResolved s \<or> resolvingCount s = 0)"
  "isRejected (finish P s) =
     (isRejected s \<or> (resolvingCount s = 0 \<and> \<not> isResolved s \<and> \<not> stopOnError P \<and> errors s \<noteq> []))"
  "listening (finish P s) = (listening s \<and> \<not> (resolvingCount s = 0 \<and> \<not> isResolved s))"
  "promise (finish P s) =
     (if resolvingCount s = 0 \<and> \<not> isResolved s \<and> promise s = None then Some (final P s)
      else promise s)"
  by (auto simp: finish_def final_def Let_def split: option.splits)

lemma call_next_cases:
  "call_next c s = (if isResolved s then AwaitNext c None else AwaitIterator c)"
  by (simp add: call_next_def)

lemma call_next_cong [simp]:
  "call_next c (s\<lparr>caught := a\<rparr>) = call_next c s"
  "call_next c (s\<lparr>errors := b\<rparr>) = call_next c s"
  "call_next c (s\<lparr>resolvingCount := d\<rparr>) = call_next c s"
  "call_next c (s\<lparr>result := e\<rparr>) = call_next c s"
  "call_next c (s\<lparr>skippedIndexesMap := f\<rparr>) = call_next c s"
  by (simp_all add: call_next_def)

lemma step_cases [consumes 1, case_names Done Raise Yield CallerErr RunnerNext CaughtStop
    CaughtCollect Return ItemLate Call Stored Abort]:
  assumes "step P ev s = Some s'"
  obtains
    (Done) k c A B where "ev = Resume k" "tasks s = A @ AwaitIterator c # B" "length A = k"
      "iterator s = []"
      "s' = (finish P (s\<lparr>currentIndex := currentIndex s + 1, isIterableDone := True\<rparr>))
              \<lparr>tasks := A @ AwaitNext c None # B\<rparr>"
  | (Raise) k c A B e rest where "ev = Resume k" "tasks s = A @ AwaitIterator c # B"
      "length A = k" "iterator s = Raises e # rest"
      "s' = s\<lparr>iterator := rest, tasks := A @ AwaitNext c (Some e) # B\<rparr>"
  | (Yield) k c A B x rest where "ev = Resume k" "tasks s = A @ AwaitIterator c # B"
      "length A = k" "iterator s = Yields x # rest"
      "s' = s\<lparr>iterator := rest, currentIndex := currentIndex s + 1,
               resolvingCount := resolvingCount s + 1,
               tasks := A @ AwaitNext c None # B @ [AwaitItem (currentIndex s) x]\<rparr>"
  | (CallerErr) k c A B e where "ev = Resume k" "tasks s = A @ AwaitNext c (Some e) # B"
      "length A = k" "c \<noteq> TryBlock"
      "s' = (reject (Thrown e) (s\<lparr>caught := caught s @ [e]\<rparr>))\<lparr>tasks := A @ Finished # B\<rparr>"
  | (RunnerNext) k i A B where "ev = Resume k" "tasks s = A @ AwaitNext (Runner i) None # B"
      "length A = k"
      "s' = s\<lparr>tasks := A @ (if isIterableDone s \<or> isRejected s then Finished
                               else runner P (i + 1) s) # B\<rparr>"
  | (CaughtStop) k t A B e where "ev = Resume k" "tasks s = A @ t # B" "length A = k"
      "throws t = Some e" "stopOnError P"
      "s' = (reject (Thrown e) (s\<lparr>caught := caught s @ [e]\<rparr>))\<lparr>tasks := A @ Finished # B\<rparr>"
  | (CaughtCollect) k t A B e where "ev = Resume k" "tasks s = A @ t # B" "length A = k"
      "throws t = Some e" "\<not> stopOnError P"
      "s' = s\<lparr>caught := caught s @ [e], errors := errors s @ [e],
               resolvingCount := resolvingCount s - 1,
               tasks := A @ call_next CatchBlock s # B\<rparr>"
  | (Return) k c A B where "ev = Resume k" "tasks s = A @ AwaitNext c None # B" "length A = k"
      "c = TryBlock \<or> c = CatchBlock" "s' = s\<lparr>tasks := A @ Finished # B\<rparr>"
  | (ItemLate) k i x A B where "ev = Resume k" "tasks s = A @ AwaitItem i (Settles x) # B"
      "length A = k" "isResolved s" "s' = s\<lparr>tasks := A @ Finished # B\<rparr>"
  | (Call) k i x A B where "ev = Resume k" "tasks s = A @ AwaitItem i (Settles x) # B"
      "length A = k" "\<not> isResolved s"
      "s' = s\<lparr>mapper_calls := mapper_calls s @ [(x, i)],
               tasks := A @ AwaitMapper i (mapper P x i) # B\<rparr>"
  | (Stored) k i r v A B where "ev = Resume k" "tasks s = A @ AwaitMapper i r # B"
      "length A = k" "stored r = Some v"
      "s' = s\<lparr>skippedIndexesMap :=
                 (if v = pMapSkip then insert i (skippedIndexesMap s) else skippedIndexesMap s),
               result := store_at i v (result s),
               resolvingCount := resolvingCount s - 1,
               tasks := A @ call_next TryBlock s # B\<rparr>"
  | (Abort) r where "ev = Abort" "signal P = Some r" "\<not> aborted s"
      "s' = (if listening s then reject (Thrown r) (s\<lparr>aborted := True\<rparr>)
             else s\<lparr>aborted := True\<rparr>)"
proof (cases ev)
  case Abort
  with assms show ?thesis
    by (auto simp: step_def signalListener_def Let_def split: option.splits if_splits
        intro!: that(12))
next
  case (Resume k)
  with assms obtain s1 t' new where k: "k < length (tasks s)"
    and r: "resume P (tasks s ! k) s = Some (s1, t', new)"
    and s': "s' = s1\<lparr>tasks := (tasks s)[k := t'] @ new\<rparr>"
    by (auto simp: step_def split: if_splits option.splits)
  define A where "A = take k (tasks s)"
  define B where "B = drop (Suc k) (tasks s)"
  define t where "t = tasks s ! k"
  have ts: "tasks s = A @ t # B" and lA: "length A = k"
    using k by (simp_all add: A_def B_def t_def id_take_nth_drop [symmetric])
  have upd: "(tasks s)[k := t'] @ new = A @ t' # B @ new"
    using k by (simp add: A_def B_def upd_conv_take_nth_drop)
  note s' = s' [unfolded upd]
  from r have r: "resume P t s = Some (s1, t', new)"
    by (simp add: t_def)
  show ?thesis
  proof (cases t)
    case (AwaitIterator c)
    show ?thesis
    proof (cases "iterator s")
      case Nil
      with r ts AwaitIterator s' show ?thesis
        by (intro that(1) [OF Resume _ lA, of c B]) (auto simp: after_pull_def)
    next
      case (Cons p rest)
      show ?thesis
      proof (cases p)
        case (Yields x)
        with r ts AwaitIterator s' Cons show ?thesis
          by (intro that(3) [OF Resume _ lA, of c B x rest]) (auto simp: after_pull_def)
      next
        case (Raises e)
        with r ts AwaitIterator s' Cons show ?thesis
          by (intro that(2) [OF Resume _ lA, of c B e rest]) (auto simp: after_pull_def)
      qed
    qed
  next
    case (AwaitNext c res)
    show ?thesis
    proof (cases res)
      case None
      show ?thesis
      proof (cases c)
        case (Runner i)
        with r ts AwaitNext None s' show ?thesis
          by (intro that(5) [OF Resume _ lA, of i B]) auto
      next
        case TryBlock
        with r ts AwaitNext None s' show ?thesis
          by (intro that(8) [OF Resume _ lA, of c B]) auto
      next
        case CatchBlock
        with r ts AwaitNext None s' show ?thesis
          by (intro that(8) [OF Resume _ lA, of c B]) auto
      qed
    next
      case (Some e)
      show ?thesis
      proof (cases c)
        case (Runner i)
        with r ts AwaitNext Some s' show ?thesis
          by (intro that(4) [OF Resume _ lA, of c e B]) auto
      next
        case CatchBlock
        with r ts AwaitNext Some s' show ?thesis
          by (intro that(4) [OF Resume _ lA, of c e B]) auto
      next
        case TryBlock
        show ?thesis
        proof (cases "stopOnError P")
          case True
          with r AwaitNext Some s' TryBlock show ?thesis
            by (intro that(6) [OF Resume ts lA, of e]) (auto simp: catch_def Let_def)
        next
          case False
          with r AwaitNext Some s' TryBlock show ?thesis
            by (intro that(7) [OF Resume ts lA, of e]) (auto simp: catch_def Let_def)
        qed
      qed
    qed
  next
    case (AwaitItem i x)
    show ?thesis
    proof (cases x)
      case (Settles a)
      show ?thesis
      proof (cases "isResolved s")
        case True
        with r ts AwaitItem Settles s' show ?thesis
          by (intro that(9) [OF Resume _ lA, of i a B]) auto
      next
        case False
        with r ts AwaitItem Settles s' show ?thesis
          by (intro that(10) [OF Resume _ lA, of i a B]) auto
      qed
    next
      case (Rejects e)
      show ?thesis
      proof (cases "stopOnError P")
        case True
        with r AwaitItem Rejects s' show ?thesis
          by (intro that(6) [OF Resume ts lA, of e]) (auto simp: catch_def Let_def)
      next
        case False
        with r AwaitItem Rejects s' show ?thesis
          by (intro that(7) [OF Resume ts lA, of e]) (auto simp: catch_def Let_def)
      qed
    qed
  next
    case (AwaitMapper i res)
    show ?thesis
    proof (cases res)
      case (Value v)
      with r ts AwaitMapper s' show ?thesis
        by (intro that(11) [OF Resume _ lA, of i res B "Val v"])
           (auto simp: record_result_def Let_def)
    next
      case Skip
      with r ts AwaitMapper s' show ?thesis
        by (intro that(11) [OF Resume _ lA, of i res B pMapSkip])
           (auto simp: record_result_def Let_def)
    next
      case (Failure e)
      show ?thesis
      proof (cases "stopOnError P")
        case True
        with r AwaitMapper Failure s' show ?thesis
          by (intro that(6) [OF Resume ts lA, of e]) (auto simp: catch_def Let_def)
      next
        case False
        with r AwaitMapper Failure s' show ?thesis
          by (intro that(7) [OF Resume ts lA, of e]) (auto simp: catch_def Let_def)
      qed
    qed
  next
    case Finished
    with r show ?thesis by simp
  qed
qed

section \<open>pMap: first invariants\<close>

lemma run_invariant:
  assumes step: "\<And>ev s s'. I s \<Longrightarrow> step P ev s = Some s' \<Longrightarrow> I s'"
    and "I s" and "run P evs s = Some s'"
  shows "I s'"
  using assms(2,3)
proof (induction evs arbitrary: s)
  case Nil
  then show ?case by simp
next
  case (Cons ev evs)
  then obtain s1 where s1: "step P ev s = Some s1" and rest: "run P evs s1 = Some s'"
    by (auto split: option.splits)
  from step [OF Cons.prems(1) s1] rest show ?case
    by (rule Cons.IH)
qed

lemma run_append:
  "run P (xs @ ys) s = (case run P xs s of None \<Rightarrow> None | Some s1 \<Rightarrow> run P ys s1)"
  by (induction xs arbitrary: s) (auto split: option.splits)

lemma quiescent_iff: "quiescent P s \<longleftrightarrow> (\<forall>ev. step P ev s = None)"
proof
  assume q: "quiescent P s"
  show "\<forall>ev. step P ev s = None"
  proof
    fix ev
    show "step P ev s = None"
    proof (cases ev)
      case (Resume k)
      from q have "k < length (tasks s) \<Longrightarrow> tasks s ! k = Finished"
        by (simp add: quiescent_def list_all_length)
      then show ?thesis
        by (auto simp: step_def Resume)
    next
      case Abort
      with q show ?thesis
        by (auto simp: step_def quiescent_def split: option.splits)
    qed
  qed
next
  assume n: "\<forall>ev. step P ev s = None"
  have "tasks s ! k = Finished" if "k < length (tasks s)" for k
  proof -
    from n have "step P (Resume k) s = None" by blast
    with that show ?thesis
      by (cases "(P, tasks s ! k, s)" rule: resume.cases)
         (auto simp: step_def split: option.splits prod.splits if_splits)
  qed
  moreover from n have "step P Abort s = None" by blast
  then have "signal P = None \<or> aborted s"
    by (auto simp: step_def split: option.splits if_splits)
  ultimately show "quiescent P s"
    by (simp add: quiescent_def list_all_length)
qed

lemma flags_ok_step:
  assumes "flags_ok s" and "step P ev s = Some s'"
  shows "flags_ok s'"
  using assms(2,1)
  by (cases rule: step_cases) (auto simp: flags_ok_def finish_flags split: option.splits)

lemma isResolved_step:
  assumes "isResolved s" and "step P ev s = Some s'"
  shows "isResolved s'"
  using assms(2,1)
  by (cases rule: step_cases) (auto simp: finish_flags)

lemma promise_step:
  assumes "promise s = Some x" and "step P ev s = Some s'"
  shows "promise s' = Some x"
  using assms(2,1)
  by (cases rule: step_cases) (auto simp: finish_flags)

lemma mapper_calls_step:
  assumes "isResolved s" and "step P ev s = Some s'"
  shows "mapper_calls s' = mapper_calls s"
  using assms(2,1)
  by (cases rule: step_cases) (auto simp: finish_flags)

lemma listening_ok_step:
  assumes "listening_ok P s" and "step P ev s = Some s'"
  shows "listening_ok P s'"
  using assms(2,1)
  by (cases rule: step_cases) (auto simp: listening_ok_def finish_flags split: option.splits if_splits)

lemma promise_run:
  assumes "promise s = Some x" and "run P evs s = Some s'"
  shows "promise s' = Some x"
  by (rule run_invariant [where I = "\<lambda>s. promise s = Some x", OF _ assms])
     (rule promise_step)

lemma resolved_run:
  assumes "isResolved s" and "run P evs s = Some s'"
  shows "isResolved s' \<and> mapper_calls s' = mapper_calls s"
  by (rule run_invariant
        [where I = "\<lambda>t. isResolved t \<and> mapper_calls t = mapper_calls s", OF _ _ assms(2)])
     (auto simp: assms(1) isResolved_step mapper_calls_step)

section \<open>pMap: the abort signal\<close>

lemma pMap_Inr:
  assumes "pMap input f opts = Inr (P, s0)"
  obtains src m where "pMap_source input = Some src" "f = Some m" "mapper P = m"
    "1 \<le> concurrency P"
    "stopOnError P = (case opt_stopOnError opts of None \<Rightarrow> True | Some b \<Rightarrow> b)"
    "signal P = map_option sig_reason (opt_signal opts)"
    "s0 = start P src (case opt_signal opts of None \<Rightarrow> False | Some g \<Rightarrow> sig_aborted g)"
proof -
  let ?c = "concurrency_arg (opt_concurrency opts)"
  from assms obtain src m where a: "pMap_source input = Some src" "f = Some m"
    and v: "valid_concurrency ?c"
    and P: "P = \<lparr>mapper = m, concurrency = bound_of ?c,
                   stopOnError = (case opt_stopOnError opts of None \<Rightarrow> True | Some b \<Rightarrow> b),
                   signal = map_option sig_reason (opt_signal opts)\<rparr>"
    and s0: "s0 = start P src (case opt_signal opts of None \<Rightarrow> False | Some g \<Rightarrow> sig_aborted g)"
    by (auto simp: pMap_def concurrency_arg_def Let_def split: option.splits if_splits)
  have "1 \<le> bound_of ?c"
    using v
    by (cases ?c) (auto simp: valid_concurrency_def isSafeInteger_def bound_of_def one_enat_def)
  with a P s0 show ?thesis
    by (intro that [of src m]) simp_all
qed

lemma runner_0:
  "1 \<le> concurrency P \<Longrightarrow> runner P 0 s = call_next (Runner 0) s"
  by (cases "concurrency P") (auto simp: runner_def one_enat_def zero_enat_def)

lemma start_unaborted:
  assumes "1 \<le> concurrency P"
  shows "start P src False =
     \<lparr>result = [], errors = [], skippedIndexesMap = {}, isRejected = False,
      isResolved = False, isIterableDone = False, resolvingCount = 0,
      currentIndex = 0, iterator = src, promise = None,
      aborted = False, listening = (signal P \<noteq> None), tasks = [AwaitIterator (Runner 0)],
      mapper_calls = [], caught = []\<rparr>"
  by (auto simp: start_def Let_def runner_0 [OF assms] call_next_def split: option.splits)

lemma start_aborted:
  assumes "1 \<le> concurrency P" and "signal P = Some r"
  shows "start P src True =
     \<lparr>result = [], errors = [], skippedIndexesMap = {}, isRejected = True,
      isResolved = True, isIterableDone = False, resolvingCount = 0,
      currentIndex = 0, iterator = src, promise = Some (Rejected (Thrown r)),
      aborted = True, listening = True, tasks = [AwaitNext (Runner 0) None],
      mapper_calls = [], caught = []\<rparr>"
  by (simp add: start_def Let_def runner_0 [OF assms(1)] call_next_def assms(2)
      reject_def settle_def cleanup_def)

lemma start_flags_ok: "1 \<le> concurrency P \<Longrightarrow> flags_ok (start P src b)"
  by (cases b; cases "signal P")
     (auto simp: start_unaborted start_aborted flags_ok_def start_def Let_def runner_0 call_next_def)

lemma start_listening_ok:
  "1 \<le> concurrency P \<Longrightarrow> listening_ok P (start P src b)"
  by (cases b; cases "signal P")
     (auto simp: start_unaborted start_aborted listening_ok_def)

text \<open>
  Claim C7.  Let a signal be supplied to a call of pMap that passes validation.  If the
  signal is already aborted, the promise is rejected with the signal's reason from the
  start and stays so, and the mapper is never invoked.  If the promise is still pending
  in some state the call can be in, the signal can fire there, and this rejects the promise
  with the signal's reason, for good (no later error of a mapper replaces it); it leaves
  every suspended function where it is, so that mappers already running are not stopped.
\<close>

theorem abort_rejects_with_reason:
  assumes "pMap input f opts = Inr (P, s0)" and "opt_signal opts = Some g"
  shows "(sig_aborted g \<longrightarrow>
            (\<forall>evs s. run P evs s0 = Some s \<longrightarrow>
               promise s = Some (Rejected (Thrown (sig_reason g))) \<and> mapper_calls s = [])) \<and>
         (\<forall>evs s. run P evs s0 = Some s \<and> promise s = None \<longrightarrow>
            (\<exists>s'. step P Abort s = Some s' \<and>
                  promise s' = Some (Rejected (Thrown (sig_reason g))) \<and>
                  tasks s' = tasks s \<and>
                  (\<forall>evs' s''. run P evs' s' = Some s'' \<longrightarrow>
                     promise s'' = Some (Rejected (Thrown (sig_reason g))))))"
proof -
  from assms(1) obtain src where c: "1 \<le> concurrency P"
    and sg: "signal P = Some (sig_reason g)"
    and s0: "s0 = start P src (sig_aborted g)"
    by (rule pMap_Inr) (simp add: assms(2))
  show ?thesis
  proof (intro conjI impI allI)
    fix evs s
    assume ab: "sig_aborted g" and run: "run P evs s0 = Some s"
    from ab have st: "s0 = start P src True" by (simp add: s0)
    have "promise s0 = Some (Rejected (Thrown (sig_reason g)))" "isResolved s0"
      "mapper_calls s0 = []"
      by (simp_all add: st start_aborted [OF c sg])
    with promise_run [OF _ run] resolved_run [OF _ run]
    show "promise s = Some (Rejected (Thrown (sig_reason g)))" "mapper_calls s = []"
      by simp_all
  next
    fix evs s
    assume "run P evs s0 = Some s \<and> promise s = None"
    then have run: "run P evs s0 = Some s" and pending: "promise s = None"
      by simp_all
    have unaborted: "\<not> sig_aborted g"
    proof
      assume "sig_aborted g"
      then have "promise s0 \<noteq> None"
        by (simp add: s0 start_aborted [OF c sg])
      with promise_run [OF _ run] pending show False
        by auto
    qed
    then have "listening_ok P s0"
      by (simp add: s0 start_listening_ok [OF c])
    then have "listening_ok P s"
      using run by (rule run_invariant [where I = "listening_ok P", rotated])
        (rule listening_ok_step)
    with pending sg have l: "listening s" "\<not> aborted s"
      by (simp_all add: listening_ok_def)
    define s' where "s' = reject (Thrown (sig_reason g)) (s\<lparr>aborted := True\<rparr>)"
    have step: "step P Abort s = Some s'"
      using l sg by (simp add: step_def s'_def signalListener_def Let_def)
    have p: "promise s' = Some (Rejected (Thrown (sig_reason g)))"
      by (simp add: s'_def pending)
    have "tasks s' = tasks s"
      by (simp add: s'_def)
    moreover have "promise s'' = Some (Rejected (Thrown (sig_reason g)))"
      if "run P evs' s' = Some s''" for evs' s''
      using promise_run [OF p that] .
    ultimately show "\<exists>s'. step P Abort s = Some s' \<and>
                  promise s' = Some (Rejected (Thrown (sig_reason g))) \<and>
                  tasks s' = tasks s \<and>
                  (\<forall>evs' s''. run P evs' s' = Some s'' \<longrightarrow>
                     promise s'' = Some (Rejected (Thrown (sig_reason g))))"
      using step p by blast
  qed
qed

lemmas pmap_defs =
  pMap_def pMap_source_def valid_concurrency_def isSafeInteger_def bound_of_def start_def
  runner_def call_next_def step_def after_pull_def finish_def catch_def record_result_def
  store_at_def pureResult_def resolve_def reject_def settle_def cleanup_def signalListener_def
  Let_def one_enat_def numeral_eq_enat

theorem abort_rejects_with_reason_witness:
  "(\<exists>s'. step \<lparr>mapper = (\<lambda>x i. (Value (2 * x) :: (int, nat) outcome)), concurrency = 2,
              stopOnError = True, signal = Some 99\<rparr> Abort
          (the (run \<lparr>mapper = (\<lambda>x i. (Value (2 * x) :: (int, nat) outcome)), concurrency = 2,
              stopOnError = True, signal = Some 99\<rparr> [Resume 0, Resume 1]
            (start \<lparr>mapper = (\<lambda>x i. (Value (2 * x) :: (int, nat) outcome)), concurrency = 2,
              stopOnError = True, signal = Some 99\<rparr>
              [Yields (Settles (1::int)), Yields (Settles 2)] False))) = Some s' \<and>
        promise s' = Some (Rejected (Thrown 99)) \<and>
        tasks s' = [AwaitNext (Runner 0) None, AwaitMapper 0 (Value 2)]) \<and>
   promise (the (run \<lparr>mapper = (\<lambda>x i. (Value (2 * x) :: (int, nat) outcome)), concurrency = 2,
              stopOnError = True, signal = Some 99\<rparr> [Resume 0]
            (start \<lparr>mapper = (\<lambda>x i. (Value (2 * x) :: (int, nat) outcome)), concurrency = 2,
              stopOnError = True, signal = Some 99\<rparr>
              [Yields (Settles (1::int)), Yields (Settles 2)] True)))
     = Some (Rejected (Thrown 99))"
  using abort_rejects_with_reason
    [of "SyncIterable [Yields (Settles (1::int)), Yields (Settles 2)]"
        "Some (\<lambda>x i. (Value (2 * x) :: (int, nat) outcome))"
        "\<lparr>opt_concurrency = Some (Integer 2), opt_stopOnError = None,
          opt_signal = Some \<lparr>sig_aborted = False, sig_reason = 99 :: nat\<rparr>\<rparr>"
        "\<lparr>mapper = (\<lambda>x i. (Value (2 * x) :: (int, nat) outcome)), concurrency = 2,
              stopOnError = True, signal = Some 99\<rparr>"
        "start \<lparr>mapper = (\<lambda>x i. (Value (2 * x) :: (int, nat) outcome)), concurrency = 2,
              stopOnError = True, signal = Some 99\<rparr>
              [Yields (Settles (1::int)), Yields (Settles 2)] False"
        "\<lparr>sig_aborted = False, sig_reason = 99 :: nat\<rparr>",
     THEN conjunct2, rule_format,
     of "[Resume 0, Resume 1]"
        "the (run \<lparr>mapper = (\<lambda>x i. (Value (2 * x) :: (int, nat) outcome)), concurrency = 2,
              stopOnError = True, signal = Some 99\<rparr> [Resume 0, Resume 1]
            (start \<lparr>mapper = (\<lambda>x i. (Value (2 * x) :: (int, nat) outcome)), concurrency = 2,
              stopOnError = True, signal = Some 99\<rparr>
              [Yields (Settles (1::int)), Yields (Settles 2)] False))"]
    abort_rejects_with_reason
    [of "SyncIterable [Yields (Settles (1::int)), Yields (Settles 2)]"
        "Some (\<lambda>x i. (Value (2 * x) :: (int, nat) outcome))"
        "\<lparr>opt_concurrency = Some (Integer 2), opt_stopOnError = None,
          opt_signal = Some \<lparr>sig_aborted = True, sig_reason = 99 :: nat\<rparr>\<rparr>"
        "\<lparr>mapper = (\<lambda>x i. (Value (2 * x) :: (int, nat) outcome)), concurrency = 2,
              stopOnError = True, signal = Some 99\<rparr>"
        "start \<lparr>mapper = (\<lambda>x i. (Value (2 * x) :: (int, nat) outcome)), concurrency = 2,
              stopOnError = True, signal = Some 99\<rparr>
              [Yields (Settles (1::int)), Yields (Settles 2)] True"
        "\<lparr>sig_aborted = True, sig_reason = 99 :: nat\<rparr>",
     THEN conjunct1, rule_format,
     of "[Resume 0]"
        "the (run \<lparr>mapper = (\<lambda>x i. (Value (2 * x) :: (int, nat) outcome)), concurrency = 2,
              stopOnError = True, signal = Some 99\<rparr> [Resume 0]
            (start \<lparr>mapper = (\<lambda>x i. (Value (2 * x) :: (int, nat) outcome)), concurrency = 2,
              stopOnError = True, signal = Some 99\<rparr>
              [Yields (Settles (1::int)), Yields (Settles 2)] True))"]
  by (simp add: pmap_defs)

section \<open>pMap: a source that throws\<close>

lemma call_next_resolved: "isResolved s \<Longrightarrow> call_next c s = AwaitNext c None"
  by (simp add: call_next_def)

lemma runner_resolved: "isResolved s \<Longrightarrow> \<not> is_AwaitIterator (runner P i s)"
  by (simp add: runner_def call_next_def)

lemma pending_pulls_step:
  assumes "isResolved s" and "step P ev s = Some s'"
  shows "pending_pulls s' \<le> pending_pulls s"
  using assms(2,1)
  by (cases rule: step_cases)
     (auto simp: pending_pulls_def call_next_resolved runner_resolved)

lemma no_new_pulls_run:
  assumes "isResolved s" and "run P evs s = Some s'"
  shows "isResolved s' \<and> pending_pulls s' \<le> pending_pulls s"
  by (rule run_invariant
        [where I = "\<lambda>t. isResolved t \<and> pending_pulls t \<le> pending_pulls s", OF _ _ assms(2)])
     (auto simp: assms(1) isResolved_step dest: pending_pulls_step)

text \<open>
  Claim C8, as the code has it.  When \<^verbatim>\<open>iterator.next()\<close> has thrown \<open>e\<close> inside a call of
  \<^verbatim>\<open>next()\<close>, and that call was made by the runner loop or by the \<^verbatim>\<open>catch\<close> block of a task, or
  \<^verbatim>\<open>stopOnError\<close> is true, then the caller rejects pMap with \<open>e\<close> itself: a promise that was
  pending is now rejected with exactly \<open>e\<close>, whatever \<^verbatim>\<open>stopOnError\<close> is.  From then on every
  call of \<^verbatim>\<open>next()\<close> returns at once, so the number of unanswered calls of
  \<^verbatim>\<open>iterator.next()\<close> never grows again.
\<close>

theorem source_failure_rejects:
  assumes "step P (Resume k) s = Some s'" and "k < length (tasks s)"
    and "tasks s ! k = AwaitNext c (Some e)" and "stopOnError P \<or> c \<noteq> TryBlock"
  shows "(promise s = None \<longrightarrow> promise s' = Some (Rejected (Thrown e))) \<and>
         (\<forall>evs s''. run P evs s' = Some s'' \<longrightarrow>
            isResolved s'' \<and> pending_pulls s'' \<le> pending_pulls s' \<and>
            (promise s = None \<longrightarrow> promise s'' = Some (Rejected (Thrown e))))"
proof -
  have s': "s' = (reject (Thrown e) (s\<lparr>caught := caught s @ [e]\<rparr>))
                  \<lparr>tasks := (tasks s)[k := Finished]\<rparr>"
    using assms by (cases c) (auto simp: step_def catch_def Let_def)
  then have r: "isResolved s'" and p: "promise s = None \<Longrightarrow> promise s' = Some (Rejected (Thrown e))"
    by simp_all
  from no_new_pulls_run [OF r] promise_run [OF p] p show ?thesis
    by blast
qed

theorem source_failure_rejects_witness:
  "promise (the (run \<lparr>mapper = (\<lambda>x i. (Value x :: (int, nat) outcome)), concurrency = 1,
              stopOnError = False, signal = None\<rparr> [Resume 0, Resume 0]
            (start \<lparr>mapper = (\<lambda>x i. (Value x :: (int, nat) outcome)), concurrency = 1,
              stopOnError = False, signal = None\<rparr> [Raises 7] False)))
     = Some (Rejected (Thrown 7))"
  using source_failure_rejects
    [of "\<lparr>mapper = (\<lambda>x i. (Value x :: (int, nat) outcome)), concurrency = 1,
              stopOnError = False, signal = None\<rparr>" 0
        "the (run \<lparr>mapper = (\<lambda>x i. (Value x :: (int, nat) outcome)), concurrency = 1,
              stopOnError = False, signal = None\<rparr> [Resume 0]
            (start \<lparr>mapper = (\<lambda>x i. (Value x :: (int, nat) outcome)), concurrency = 1,
              stopOnError = False, signal = None\<rparr> [Raises 7] False))"
        "the (run \<lparr>mapper = (\<lambda>x i. (Value x :: (int, nat) outcome)), concurrency = 1,
              stopOnError = False, signal = None\<rparr> [Resume 0, Resume 0]
            (start \<lparr>mapper = (\<lambda>x i. (Value x :: (int, nat) outcome)), concurrency = 1,
              stopOnError = False, signal = None\<rparr> [Raises 7] False))"
        "Runner 0" 7, THEN conjunct1]
  by (simp add: pmap_defs)

text \<open>
  Claim C8 as stated fails at
  \<^verbatim>\<open>pMap(source, x => x, {concurrency: 1, stopOnError: false})\<close> for a source whose first
  \<^verbatim>\<open>next()\<close> throws 7: the runner loop catches the error and rejects with 7 itself; no
  AggregateError is built and \<^verbatim>\<open>errors\<close> stays empty.
\<close>

theorem source_failure_not_aggregated:
  "case pMap (SyncIterable [Raises (7::nat)]) (Some (\<lambda>x i. (Value x :: (int, nat) outcome)))
          \<lparr>opt_concurrency = Some (Integer 1), opt_stopOnError = Some False, opt_signal = None\<rparr> of
     Inl _ \<Rightarrow> False
   | Inr (P, s0) \<Rightarrow>
       \<not> stopOnError P \<and>
       (case run P [Resume 0, Resume 0] s0 of
          None \<Rightarrow> False
        | Some s \<Rightarrow>
            promise s = Some (Rejected (Thrown 7)) \<and>
            promise s \<noteq> Some (Rejected (AggregateError [7])) \<and>
            errors s = [] \<and> quiescent P s)"
  by (simp add: pmap_defs quiescent_def)

text \<open>
  The path the amended claim leaves out: with \<^verbatim>\<open>stopOnError: false\<close>, a source failure
  inside the \<^verbatim>\<open>next()\<close> that a task calls at the end of its \<^verbatim>\<open>try\<close> block is pushed to
  \<^verbatim>\<open>errors\<close>, \<^verbatim>\<open>resolvingCount\<close> is decremented a second time, and \<^verbatim>\<open>next()\<close> is called
  again.  For a source that yields 1 and then throws, with concurrency 1, the counter ends
  at -1 and the promise is never settled.
\<close>

lemma source_failure_in_try_block_never_settles:
  "case pMap (SyncIterable [Yields (Settles (1::int)), Raises (7::nat)])
          (Some (\<lambda>x i. (Value x :: (int, nat) outcome)))
          \<lparr>opt_concurrency = Some (Integer 1), opt_stopOnError = Some False, opt_signal = None\<rparr> of
     Inl _ \<Rightarrow> False
   | Inr (P, s0) \<Rightarrow>
       (case run P [Resume 0, Resume 0, Resume 1, Resume 1, Resume 1, Resume 1, Resume 1,
                    Resume 1] s0 of
          None \<Rightarrow> False
        | Some s \<Rightarrow>
            promise s = None \<and> resolvingCount s = - 1 \<and> errors s = [7] \<and> quiescent P s)"
  by (simp add: pmap_defs quiescent_def)

section \<open>The empty source\<close>

lemma no_items_step:
  assumes "iterator s = [] \<and> mapper_calls s = [] \<and> (\<forall>t \<in> set (tasks s). \<forall>i x. t \<noteq> AwaitItem i x)"
    and "step P ev s = Some s'"
  shows "iterator s' = [] \<and> mapper_calls s' = [] \<and> (\<forall>t \<in> set (tasks s'). \<forall>i x. t \<noteq> AwaitItem i x)"
  using assms(2,1)
  by (cases rule: step_cases) (auto simp: call_next_def runner_def)

lemma empty_pMap_run:
  assumes c: "1 \<le> concurrency P" and run: "run P evs (start P [] False) = Some s"
    and na: "Abort \<notin> set evs"
  shows "length evs \<le> 2 \<and> (promise s = None \<or> promise s = Some (Resolved [])) \<and>
         (list_all (\<lambda>t. t = Finished) (tasks s) \<longrightarrow> promise s = Some (Resolved []))"
proof (cases evs)
  case Nil
  with run show ?thesis by (auto simp: start_unaborted [OF c])
next
  case (Cons e1 r1)
  define s1 where "s1 = finish P ((start P [] False)\<lparr>currentIndex := 1, isIterableDone := True\<rparr>)
                        \<lparr>tasks := [AwaitNext (Runner 0) None]\<rparr>"
  from Cons na obtain k where e1: "e1 = Resume k" by (cases e1) auto
  from run Cons e1 have k: "k = 0" and st1: "run P r1 s1 = Some s"
    by (auto simp: s1_def step_def start_unaborted [OF c] after_pull_def split: if_splits option.splits)
  have s1: "promise s1 = Some (Resolved [])" "tasks s1 = [AwaitNext (Runner 0) None]"
    "isIterableDone s1"
    by (simp_all add: s1_def start_unaborted [OF c] finish_def Let_def resolve_def settle_def cleanup_def)
  show ?thesis
  proof (cases r1)
    case Nil
    with st1 s1 Cons show ?thesis by auto
  next
    case (Cons e2 r2)
    from Cons na \<open>evs = e1 # r1\<close> obtain k2 where e2: "e2 = Resume k2" by (cases e2) auto
    from st1 Cons e2 s1 have st2: "run P r2 (s1\<lparr>tasks := [Finished]\<rparr>) = Some s"
      by (auto simp: step_def split: if_splits option.splits)
    have "r2 = []"
    proof (cases r2)
      case (Cons e3 r3)
      from na \<open>evs = e1 # r1\<close> \<open>r1 = e2 # r2\<close> Cons obtain k3 where "e3 = Resume k3"
        by (cases e3) auto
      with st2 Cons show ?thesis
        by (auto simp: step_def split: if_splits option.splits)
    qed simp
    with st2 s1 Cons \<open>evs = e1 # r1\<close> show ?thesis by auto
  qed
qed

lemma below_0:
  assumes "1 \<le> concurrency Q" "concurrency Q \<le> backpressure Q"
  shows "below 0 (concurrency Q)" "below 0 (backpressure Q)"
  using assms by (cases "concurrency Q"; cases "backpressure Q"; auto simp: below_def one_enat_def)+

lemma empty_stream_step0:
  assumes "1 \<le> concurrency Q" "concurrency Q \<le> backpressure Q"
  shows "iter_step Q ev (empty_stream 0) = (if ev = CallNext then Some (empty_stream (Suc 0)) else None)"
  by (cases ev)
     (simp_all add: iter_step_def empty_stream_def iter_start_def trySpawn_def below_0 [OF assms]
        loop_head_def)

lemma empty_stream_step1:
  "iter_step Q ev (empty_stream (Suc 0)) = (if ev = ResumeHandle 0 then Some (empty_stream (Suc (Suc 0))) else None)"
  by (cases ev) (simp_all add: iter_step_def empty_stream_def iter_start_def set_handle_def)

lemma empty_stream_step2:
  "iter_step Q ev (empty_stream (Suc (Suc 0))) = (if ev = ResumeHandle 0 then Some (empty_stream (Suc (Suc (Suc 0)))) else None)"
  by (cases ev)
     (simp_all add: iter_step_def empty_stream_def iter_start_def set_handle_def on_result_def
        done_of_def value_of_def)

lemma empty_stream_step3:
  "iter_step Q ev (empty_stream (Suc (Suc (Suc 0)))) = (if ev = ResumeGenerator then Some (empty_stream (Suc (Suc (Suc (Suc 0))))) else None)"
  by (cases ev)
     (simp_all add: iter_step_def empty_stream_def iter_start_def loop_body_def error_of_def
        done_of_def)

lemma empty_stream_step4: "iter_step Q ev (empty_stream (Suc (Suc (Suc (Suc 0))))) = None"
  by (cases ev) (simp_all add: iter_step_def empty_stream_def iter_start_def)

lemma empty_stream_step:
  assumes "1 \<le> concurrency Q" "concurrency Q \<le> backpressure Q"
    and "iter_step Q ev (empty_stream i) = Some u" and "i \<le> 4"
  shows "i < 4 \<and> u = empty_stream (Suc i)"
proof -
  from assms(4) consider "i = 0" | "i = Suc 0" | "i = Suc (Suc 0)" | "i = Suc (Suc (Suc 0))"
    | "i = Suc (Suc (Suc (Suc 0)))" by linarith
  then show ?thesis
  proof cases
    case 1
    with assms(3) show ?thesis
      by (simp add: empty_stream_step0 [OF assms(1,2)] split: if_splits)
  next
    case 2
    with assms(3) show ?thesis
      by (simp add: empty_stream_step1 split: if_splits)
  next
    case 3
    with assms(3) show ?thesis
      by (simp add: empty_stream_step2 split: if_splits)
  next
    case 4
    with assms(3) show ?thesis
      by (simp add: empty_stream_step3 split: if_splits)
  next
    case 5
    with assms(3) show ?thesis
      by (simp add: empty_stream_step4)
  qed
qed

lemma empty_stream_run:
  assumes "1 \<le> concurrency Q" "concurrency Q \<le> backpressure Q"
    and "iter_run Q evs (empty_stream i) = Some u" and "i \<le> 4"
  shows "length evs + i \<le> 4 \<and> u = empty_stream (i + length evs)"
  using assms(3,4)
proof (induction evs arbitrary: i)
  case Nil
  then show ?case by simp
next
  case (Cons e es)
  then obtain v where v: "iter_step Q e (empty_stream i) = Some v"
    and r: "iter_run Q es v = Some u"
    by (auto split: option.splits)
  from empty_stream_step [OF assms(1,2) v Cons.prems(2)]
  have i: "i < 4" and v': "v = empty_stream (Suc i)" by simp_all
  from Cons.IH [of "Suc i"] r v' i show ?case by simp
qed

lemma empty_stream_enabled:
  assumes "1 \<le> concurrency Q" "concurrency Q \<le> backpressure Q" and "i < 4"
  shows "\<exists>ev. iter_step Q ev (empty_stream i) \<noteq> None"
proof -
  from assms(3) consider "i = 0" | "i = Suc 0" | "i = Suc (Suc 0)" | "i = Suc (Suc (Suc 0))" by linarith
  then show ?thesis
  proof cases
    case 1
    then show ?thesis
      by (intro exI [of _ CallNext]) (simp add: empty_stream_step0 [OF assms(1,2)])
  next
    case 2
    then show ?thesis
      by (intro exI [of _ "ResumeHandle 0"]) (simp add: empty_stream_step1)
  next
    case 3
    then show ?thesis
      by (intro exI [of _ "ResumeHandle 0"]) (simp add: empty_stream_step2)
  next
    case 4
    then show ?thesis
      by (intro exI [of _ ResumeGenerator]) (simp add: empty_stream_step3)
  qed
qed

lemma empty_iter_run:
  assumes c: "1 \<le> concurrency Q" "concurrency Q \<le> backpressure Q"
    and run: "iter_run Q evs (iter_start []) = Some t"
  shows "length evs \<le> 4 \<and> yielded t = [] \<and> mapper_calls_it t = [] \<and>
         ((\<forall>ev. iter_step Q ev t = None) \<longrightarrow> consumer t = Returned)"
proof -
  have "iter_start [] = (empty_stream 0 :: ('a, 'b, 'c) iter_state)"
    by (simp add: empty_stream_def iter_start_def)
  with run have "iter_run Q evs (empty_stream 0) = Some t" by simp
  from empty_stream_run [OF c this] have le: "length evs \<le> 4"
    and t: "t = empty_stream (length evs)" by simp_all
  have "yielded t = [] \<and> mapper_calls_it t = []"
    by (simp add: t empty_stream_def iter_start_def)
  moreover have "consumer t = Returned" if "\<forall>ev. iter_step Q ev t = None"
  proof -
    from that empty_stream_enabled [OF c, of "length evs"] t have "\<not> length evs < 4"
      by auto
    with le have "length evs = 4" by simp
    then show ?thesis by (simp add: t empty_stream_def)
  qed
  ultimately show ?thesis using le by blast
qed

lemma empty_pMap_complete:
  assumes c: "1 \<le> concurrency P"
  shows "\<exists>s. run P [Resume 0, Resume 0] (start P [] False) = Some s \<and>
             list_all (\<lambda>t. t = Finished) (tasks s) \<and> promise s = Some (Resolved [])"
  by (simp add: step_def start_unaborted [OF c] after_pull_def finish_def Let_def resolve_def
      settle_def cleanup_def)

lemma empty_stream_complete:
  assumes "1 \<le> concurrency Q" "concurrency Q \<le> backpressure Q"
  shows "\<exists>t. iter_run Q [CallNext, ResumeHandle 0, ResumeHandle 0, ResumeGenerator]
               (iter_start []) = Some t \<and> consumer t = Returned \<and> yielded t = []"
proof -
  have "iter_start [] = (empty_stream 0 :: ('a, 'b, 'c) iter_state)"
    by (simp add: empty_stream_def iter_start_def)
  then show ?thesis
    by (simp add: empty_stream_step0 [OF assms] empty_stream_step1 empty_stream_step2
        empty_stream_step3)
       (simp add: empty_stream_def iter_start_def)
qed

text \<open>
  Claim C10, as the code has it.  On an empty source the mapper is never invoked, by
  pMap (whatever the options and the signal do) and by pMapIterable.  If the abort
  signal, when there is one, is not aborted at the call and does not fire, pMap takes two
  steps, is settled by nothing but \<open>Resolved []\<close>, and is resolved to the empty array once
  no function is suspended any more; such a run exists.  The generator of pMapIterable
  takes four steps, yields nothing, and when nothing more can happen it has returned;
  such a run exists.
\<close>

theorem empty_input:
  assumes "pMap input f opts = Inr (P, s0)" and "pMap_source input = Some []"
    and "pMapIterable input' f' iopts = Inr (Q, t0)" and "pMapIterable_source input' = Some []"
  shows "(\<forall>evs s. run P evs s0 = Some s \<longrightarrow>
            mapper_calls s = [] \<and>
            ((case opt_signal opts of None \<Rightarrow> True | Some g \<Rightarrow> \<not> sig_aborted g) \<and>
             Abort \<notin> set evs \<longrightarrow>
               length evs \<le> 2 \<and> (promise s = None \<or> promise s = Some (Resolved [])) \<and>
               (list_all (\<lambda>t. t = Finished) (tasks s) \<longrightarrow> promise s = Some (Resolved [])))) \<and>
         ((case opt_signal opts of None \<Rightarrow> True | Some g \<Rightarrow> \<not> sig_aborted g) \<longrightarrow>
            (\<exists>s. run P [Resume 0, Resume 0] s0 = Some s \<and>
                 list_all (\<lambda>t. t = Finished) (tasks s) \<and> promise s = Some (Resolved []))) \<and>
         (\<forall>evs t. iter_run Q evs t0 = Some t \<longrightarrow>
            length evs \<le> 4 \<and> yielded t = [] \<and> mapper_calls_it t = [] \<and>
            ((\<forall>ev. iter_step Q ev t = None) \<longrightarrow> consumer t = Returned)) \<and>
         (\<exists>t. iter_run Q [CallNext, ResumeHandle 0, ResumeHandle 0, ResumeGenerator] t0 = Some t \<and>
              consumer t = Returned \<and> yielded t = [])"
proof -
  let ?ab = "case opt_signal opts of None \<Rightarrow> False | Some g \<Rightarrow> sig_aborted g"
  from assms(1) obtain src where c: "1 \<le> concurrency P"
    and src: "pMap_source input = Some src"
    and sg: "signal P = map_option sig_reason (opt_signal opts)"
    and s0: "s0 = start P src ?ab"
    by (rule pMap_Inr)
  from src assms(2) have s0: "s0 = start P [] ?ab" by (simp add: s0)
  have unab: "s0 = start P [] False"
    if "case opt_signal opts of None \<Rightarrow> True | Some g \<Rightarrow> \<not> sig_aborted g"
    using that by (simp add: s0 split: option.splits)
  from pMapIterable_Inr [OF assms(3)] assms(4)
  have q: "1 \<le> concurrency Q" "concurrency Q \<le> backpressure Q" and t0: "t0 = iter_start []"
    by auto
  have init: "iterator s0 = [] \<and> mapper_calls s0 = [] \<and>
              (\<forall>t \<in> set (tasks s0). \<forall>i x. t \<noteq> AwaitItem i x)"
  proof (cases ?ab)
    case False
    then show ?thesis by (simp add: s0 start_unaborted [OF c])
  next
    case True
    then obtain g where "opt_signal opts = Some g" by (auto split: option.splits)
    with True sg show ?thesis by (simp add: s0 start_aborted [OF c])
  qed
  have calls: "mapper_calls s = []" if "run P evs s0 = Some s" for evs s
    using run_invariant
      [where I = "\<lambda>s. iterator s = [] \<and> mapper_calls s = [] \<and>
                       (\<forall>t \<in> set (tasks s). \<forall>i x. t \<noteq> AwaitItem i x)", OF no_items_step init that]
    by simp
  show ?thesis
    using calls empty_pMap_run [OF c] empty_pMap_complete [OF c] unab
      empty_iter_run [OF q] empty_stream_complete [OF q]
    unfolding t0 by blast
qed

theorem empty_input_witness:
  "promise (the (run \<lparr>mapper = (\<lambda>x i. (Value x :: (int, nat) outcome)), concurrency = 2,
              stopOnError = True, signal = None\<rparr> [Resume 0, Resume 0]
            (start \<lparr>mapper = (\<lambda>x i. (Value x :: (int, nat) outcome)), concurrency = 2,
              stopOnError = True, signal = None\<rparr> [] False))) = Some (Resolved []) \<and>
   consumer (the (iter_run
      \<lparr>mapper = (\<lambda>x i. (Value x :: (int, nat) outcome)), concurrency = 2, backpressure = 2\<rparr>
      [CallNext, ResumeHandle 0, ResumeHandle 0, ResumeGenerator]
      (iter_start ([] :: (int, nat) pull list)))) = Returned"
proof -
  note inst = empty_input
    [of "SyncIterable []" "Some (\<lambda>x i. (Value x :: (int, nat) outcome))"
        "\<lparr>opt_concurrency = Some (Integer 2), opt_stopOnError = None, opt_signal = None\<rparr>"
        "\<lparr>mapper = (\<lambda>x i. (Value x :: (int, nat) outcome)), concurrency = 2,
              stopOnError = True, signal = None\<rparr>"
        "start \<lparr>mapper = (\<lambda>x i. (Value x :: (int, nat) outcome)), concurrency = 2,
              stopOnError = True, signal = None\<rparr> [] False"
        "SyncIterable []" "Some (\<lambda>x i. (Value x :: (int, nat) outcome))"
        "\<lparr>opt_concurrency_it = Some (Integer 2), opt_backpressure = None\<rparr>"
        "\<lparr>mapper = (\<lambda>x i. (Value x :: (int, nat) outcome)), concurrency = 2, backpressure = 2\<rparr>"
        "iter_start []"]
  have 1: "pMap (SyncIterable []) (Some (\<lambda>x i. (Value x :: (int, nat) outcome)))
        \<lparr>opt_concurrency = Some (Integer 2), opt_stopOnError = None, opt_signal = None\<rparr> =
      Inr (\<lparr>mapper = (\<lambda>x i. (Value x :: (int, nat) outcome)), concurrency = 2,
              stopOnError = True, signal = None\<rparr>,
           start \<lparr>mapper = (\<lambda>x i. (Value x :: (int, nat) outcome)), concurrency = 2,
              stopOnError = True, signal = None\<rparr> [] False)"
    by (simp add: pMap_def pMap_source_def valid_concurrency_def isSafeInteger_def bound_of_def
        numeral_eq_enat Let_def)
  have 2: "pMapIterable (SyncIterable ([] :: (int, nat) pull list))
        (Some (\<lambda>x i. (Value x :: (int, nat) outcome)))
        \<lparr>opt_concurrency_it = Some (Integer 2), opt_backpressure = None\<rparr> =
      Inr (\<lparr>mapper = (\<lambda>x i. (Value x :: (int, nat) outcome)), concurrency = 2, backpressure = 2\<rparr>,
           iter_start [])"
    by (simp add: iter_defs numeral_eq_enat)
  from inst [OF 1 _ 2] show ?thesis
    by (auto simp: pMap_source_def pMapIterable_source_def)
qed

text \<open>
  Claim C10 as stated fails for \<^verbatim>\<open>pMap([], mapper, {signal})\<close> with a signal that is
  already aborted (with reason 5): the promise is rejected with the reason at the call, and
  after the only step the call can take it is still rejected, not resolved to \<^verbatim>\<open>[]\<close>.
\<close>

theorem empty_input_aborted_rejects:
  "case pMap (SyncIterable []) (Some (\<lambda>x i. (Value x :: (int, nat) outcome)))
          \<lparr>opt_concurrency = None, opt_stopOnError = None,
           opt_signal = Some \<lparr>sig_aborted = True, sig_reason = 5\<rparr>\<rparr> of
     Inl _ \<Rightarrow> False
   | Inr (P, s0) \<Rightarrow>
       promise s0 = Some (Rejected (Thrown 5)) \<and>
       (case run P [Resume 0] s0 of
          None \<Rightarrow> False
        | Some s \<Rightarrow> promise s = Some (Rejected (Thrown 5)) \<and>
                   promise s \<noteq> Some (Resolved []) \<and> quiescent P s)"
  by (simp add: pmap_defs quiescent_def)

section \<open>pMap: the scheduling invariant\<close>

lemma live_indices_simps [simp]:
  "live_indices [] = []"
  "live_indices (t # ts) = task_index t @ live_indices ts"
  "live_indices (A @ B) = live_indices A @ live_indices B"
  by (simp_all add: live_indices_def)

lemma task_index_call_next [simp]:
  "task_index (call_next c s) = []" "task_index (runner P i s) = []"
  by (simp_all add: call_next_def runner_def)

lemma live_indices_member:
  "i \<in> set (live_indices ts) \<longleftrightarrow> (\<exists>t \<in> set ts. task_index t = [i])"
proof (induction ts)
  case Nil
  then show ?case by simp
next
  case (Cons t ts)
  then show ?case by (cases t) auto
qed

lemma source_ok_length: "source_ok items s \<Longrightarrow> length (iterator s) \<le> length items"
  by (metis source_ok_def pulled_def diff_is_0_eq' drop0 length_drop length_map
      diff_le_self nat_le_linear)

lemma source_ok_Yield:
  assumes "source_ok items s" and "iterator s = p # rest"
  shows "p = Yields (items ! pulled items s)" "pulled items s < length items"
    "currentIndex s = pulled items s" "length items - length rest = Suc (pulled items s)"
    "rest = drop (Suc (pulled items s)) (map Yields items)"
proof -
  from assms have d: "drop (pulled items s) (map Yields items) = p # rest"
    and c: "currentIndex s = pulled items s"
    by (simp_all add: source_ok_def)
  from d have lt: "pulled items s < length items"
    by (metis drop_all length_map list.discI not_le)
  from d lt show "p = Yields (items ! pulled items s)"
    by (metis Cons_nth_drop_Suc length_map list.inject nth_map)
  from d lt show "rest = drop (Suc (pulled items s)) (map Yields items)"
    by (metis Cons_nth_drop_Suc length_map list.inject)
  from source_ok_length [OF assms(1)] assms(2) show "length items - length rest = Suc (pulled items s)"
    by (simp add: pulled_def)
  show "pulled items s < length items" "currentIndex s = pulled items s"
    by (rule lt, rule c)
qed

lemma sched_step_cases [consumes 4, case_names Done Yield RunnerNext Failed Return Call Stored]:
  assumes "step P ev s = Some s'" and inv: "sched_inv P items s" and "signal P = None"
    and nf: "no_fail_fast_failure P items"
  obtains
    (Done) c A B where "tasks s = A @ AwaitIterator c # B" "iterator s = []"
      "s' = (finish P (s\<lparr>currentIndex := currentIndex s + 1, isIterableDone := True\<rparr>))
              \<lparr>tasks := A @ AwaitNext c None # B\<rparr>"
  | (Yield) c A B x rest where "tasks s = A @ AwaitIterator c # B"
      "iterator s = Yields x # rest" "pulled items s < length items"
      "items ! pulled items s = x" "currentIndex s = pulled items s" "\<not> isResolved s"
      "length items - length rest = Suc (pulled items s)"
      "rest = drop (Suc (pulled items s)) (map Yields items)"
      "s' = s\<lparr>iterator := rest, currentIndex := currentIndex s + 1,
               resolvingCount := resolvingCount s + 1,
               tasks := A @ AwaitNext c None # B @ [AwaitItem (pulled items s) x]\<rparr>"
  | (RunnerNext) i A B where "tasks s = A @ AwaitNext (Runner i) None # B"
      "s' = s\<lparr>tasks := A @ (if isIterableDone s \<or> isRejected s then Finished
                               else runner P (i + 1) s) # B\<rparr>"
  | (Failed) t i e A B where "tasks s = A @ t # B" "task_index t = [i]"
      "outcome_at P items i = Failure e" "i < pulled items s" "\<not> stopOnError P"
      "\<not> isResolved s"
      "s' = s\<lparr>caught := caught s @ [e], errors := errors s @ [e],
               resolvingCount := resolvingCount s - 1,
               tasks := A @ AwaitIterator CatchBlock # B\<rparr>"
  | (Return) c A B where "tasks s = A @ AwaitNext c None # B" "c = TryBlock \<or> c = CatchBlock"
      "s' = s\<lparr>tasks := A @ Finished # B\<rparr>"
  | (Call) i x A B where "tasks s = A @ AwaitItem i (Settles x) # B" "\<not> isResolved s"
      "items ! i = Settles x" "i < pulled items s"
      "s' = s\<lparr>mapper_calls := mapper_calls s @ [(x, i)],
               tasks := A @ AwaitMapper i (mapper P x i) # B\<rparr>"
  | (Stored) i r v A B where "tasks s = A @ AwaitMapper i r # B" "stored r = Some v"
      "outcome_at P items i = r" "i < pulled items s" "\<not> isResolved s"
      "s' = s\<lparr>skippedIndexesMap :=
                 (if v = pMapSkip then insert i (skippedIndexesMap s) else skippedIndexesMap s),
               result := store_at i v (result s),
               resolvingCount := resolvingCount s - 1,
               tasks := A @ AwaitIterator TryBlock # B\<rparr>"
proof -
  from inv have src: "source_ok items s" and tk: "tasks_ok P items s"
    and st: "settled_ok P s"
    by (simp_all add: sched_inv_def)
  have valid: "valid_task P items (pulled items s) t" if "t \<in> set (tasks s)" for t
    using tk that by (simp add: tasks_ok_def)
  have live: "\<not> isResolved s" if "t \<in> set (tasks s)" "task_index t \<noteq> []" for t
  proof
    assume "isResolved s"
    with st have "live_indices (tasks s) = []" by (simp add: settled_ok_def)
    with that show False by (auto simp: live_indices_def)
  qed
  from assms(1) show ?thesis
  proof (cases rule: step_cases)
    case (Done k c A B)
    then show ?thesis by (intro that(1)) (auto simp del: finish_fields)
  next
    case (Raise k c A B e rest)
    with source_ok_Yield(1) [OF src, of "Raises e" rest] show ?thesis by simp
  next
    case (Yield k c A B x rest)
    from st Yield(4) have "\<not> isResolved s" by (auto simp: settled_ok_def)
    with Yield source_ok_Yield [OF src Yield(4)] show ?thesis
      by (intro that(2) [of A c B x rest]) simp_all
  next
    case (CallerErr k c A B e)
    with valid [of "AwaitNext c (Some e)"] show ?thesis by simp
  next
    case (RunnerNext k i A B)
    then show ?thesis by (intro that(3))
  next
    case (CaughtStop k t A B e)
    from CaughtStop(2) have t: "t \<in> set (tasks s)" by simp
    from CaughtStop(4) valid [OF t] obtain i where
      "i < pulled items s" "pulled items s \<le> length items" "outcome_at P items i = Failure e"
      by (cases t rule: throws.cases)
         (auto simp: outcome_at_def split: item.splits)
    moreover from this have "i < length items" by simp
    with nf CaughtStop(5) have "\<not> is_Failure (outcome_at P items i)"
      by (simp add: no_fail_fast_failure_def)
    ultimately show ?thesis by simp
  next
    case (CaughtCollect k t A B e)
    from CaughtCollect(2) have t: "t \<in> set (tasks s)" by simp
    from CaughtCollect(4) valid [OF t] obtain i where i: "task_index t = [i]"
      "i < pulled items s" "outcome_at P items i = Failure e"
      by (cases t rule: throws.cases)
         (auto simp: outcome_at_def split: item.splits)
    from live [OF t] i have nr: "\<not> isResolved s" by simp
    with CaughtCollect i show ?thesis
      by (intro that(4) [of A t B i e]) (simp_all add: call_next_def)
  next
    case (Return k c A B)
    then show ?thesis by (intro that(5))
  next
    case (ItemLate k i x A B)
    with live [of "AwaitItem i (Settles x)"] show ?thesis by simp
  next
    case (Call k i x A B)
    with valid [of "AwaitItem i (Settles x)"] show ?thesis
      by (intro that(6) [of A i x B]) simp_all
  next
    case (Stored k i r v A B)
    from Stored(2) have t: "AwaitMapper i r \<in> set (tasks s)" by simp
    from live [OF t] have nr: "\<not> isResolved s" by simp
    from valid [OF t] have "i < pulled items s" "outcome_at P items i = r"
      by (auto simp: outcome_at_def split: item.splits)
    with Stored nr show ?thesis
      by (intro that(7) [of A i r B v]) (simp_all add: call_next_def)
  next
    case (Abort r)
    with assms(3) show ?thesis by simp
  qed
qed

lemma pulled_upd [simp]:
  "pulled items (s\<lparr>tasks := a\<rparr>) = pulled items s"
  "pulled items (s\<lparr>resolvingCount := b\<rparr>) = pulled items s"
  "pulled items (s\<lparr>result := c\<rparr>) = pulled items s"
  "pulled items (s\<lparr>skippedIndexesMap := d\<rparr>) = pulled items s"
  "pulled items (s\<lparr>errors := e\<rparr>) = pulled items s"
  "pulled items (s\<lparr>caught := f\<rparr>) = pulled items s"
  "pulled items (s\<lparr>mapper_calls := g\<rparr>) = pulled items s"
  "pulled items (s\<lparr>currentIndex := h\<rparr>) = pulled items s"
  "pulled items (s\<lparr>isIterableDone := j\<rparr>) = pulled items s"
  "pulled items (finish P s) = pulled items s"
  by (simp_all add: pulled_def)

lemma pulled_iterator: "pulled items (s\<lparr>iterator := r\<rparr>) = length items - length r"
  by (simp add: pulled_def)

lemma final_upd [simp]:
  "final P (s\<lparr>tasks := a\<rparr>) = final P s"
  "final P (s\<lparr>currentIndex := h\<rparr>) = final P s"
  "final P (s\<lparr>isIterableDone := j\<rparr>) = final P s"
  "final P (finish P s) = final P s"
  by (simp_all add: final_def)

lemma valid_task_mono:
  "valid_task P items p t \<Longrightarrow> p \<le> p' \<Longrightarrow> p' \<le> length items \<Longrightarrow> valid_task P items p' t"
  by (cases "(P, items, p, t)" rule: valid_task.cases) auto

lemma live_lt_pulled:
  assumes "tasks_ok P items s" and "i \<in> set (live_indices (tasks s))"
  shows "i < pulled items s"
proof -
  from assms(2) obtain t where t: "t \<in> set (tasks s)" "task_index t = [i]"
    by (auto simp: live_indices_member)
  with assms(1) have "valid_task P items (pulled items s) t"
    by (simp add: tasks_ok_def)
  with t(2) show ?thesis
    by (cases t) auto
qed

lemma pulled_le: "pulled items s \<le> length items"
  by (simp add: pulled_def)

text \<open>What one step does to the finished indices and to the variables they determine.\<close>

lemma effect_cases [consumes 4, case_names Same Fail Store]:
  assumes "step P ev s = Some s'" and inv: "sched_inv P items s" and "signal P = None"
    and "no_fail_fast_failure P items"
  obtains
    (Same) "finished_indices items s' = finished_indices items s" "result s' = result s"
      "skippedIndexesMap s' = skippedIndexesMap s" "errors s' = errors s"
      "caught s' = caught s" "pulled items s \<le> pulled items s'"
  | (Fail) i e where "finished_indices items s' = insert i (finished_indices items s)"
      "i \<notin> finished_indices items s" "outcome_at P items i = Failure e"
      "result s' = result s" "skippedIndexesMap s' = skippedIndexesMap s"
      "errors s' = errors s @ [e]" "caught s' = caught s @ [e]"
      "pulled items s' = pulled items s"
  | (Store) i r v where "finished_indices items s' = insert i (finished_indices items s)"
      "i \<notin> finished_indices items s" "outcome_at P items i = r" "stored r = Some v"
      "i < pulled items s"
      "result s' = store_at i v (result s)"
      "skippedIndexesMap s' =
         (if v = pMapSkip then insert i (skippedIndexesMap s) else skippedIndexesMap s)"
      "errors s' = errors s" "caught s' = caught s" "pulled items s' = pulled items s"
proof -
  from inv have tk: "tasks_ok P items s" by (simp add: sched_inv_def)
  then have d: "distinct (live_indices (tasks s))" by (simp add: tasks_ok_def)
  note lt = live_lt_pulled [OF tk]
  from assms show ?thesis
  proof (cases rule: sched_step_cases)
    case (Done c A B)
    then show ?thesis by (intro that(1)) (simp_all add: finished_indices_def)
  next
    case (Yield c A B x rest)
    have "pulled items s \<notin> set (live_indices (tasks s))"
      using lt by blast
    moreover have "pulled items s' = Suc (pulled items s)"
      using Yield by (simp add: pulled_iterator)
    ultimately show ?thesis
      using Yield lt
      by (intro that(1)) (auto simp: finished_indices_def less_Suc_eq)
  next
    case (RunnerNext i A B)
    then show ?thesis by (intro that(1)) (simp_all add: finished_indices_def)
  next
    case (Failed t i e A B)
    with d show ?thesis
      by (intro that(2) [of i e]) (auto simp: finished_indices_def)
  next
    case (Return c A B)
    then show ?thesis by (intro that(1)) (simp_all add: finished_indices_def)
  next
    case (Call i x A B)
    then show ?thesis by (intro that(1)) (simp_all add: finished_indices_def)
  next
    case (Stored i r v A B)
    with d show ?thesis
      by (intro that(3) [of i r v]) (auto simp: finished_indices_def)
  qed
qed

lemma source_ok_step:
  assumes "step P ev s = Some s'" and "sched_inv P items s" and "signal P = None"
    and "no_fail_fast_failure P items"
  shows "source_ok items s'"
proof -
  from assms(2) have src: "source_ok items s" by (simp add: sched_inv_def)
  from assms show ?thesis
  proof (cases rule: sched_step_cases)
    case (Yield c A B x rest)
    then show ?thesis
      by (simp add: source_ok_def pulled_iterator)
  qed (use src in \<open>simp_all add: source_ok_def\<close>)
qed

lemma tasks_ok_step:
  assumes "step P ev s = Some s'" and "sched_inv P items s" and "signal P = None"
    and "no_fail_fast_failure P items"
  shows "tasks_ok P items s'"
proof -
  from assms(2) have tk: "tasks_ok P items s" by (simp add: sched_inv_def)
  then have d: "distinct (live_indices (tasks s))"
    and v: "\<And>t. t \<in> set (tasks s) \<Longrightarrow> valid_task P items (pulled items s) t"
    by (simp_all add: tasks_ok_def)
  note lt = live_lt_pulled [OF tk]
  from assms show ?thesis
  proof (cases rule: sched_step_cases)
    case (Yield c A B x rest)
    have p': "pulled items s' = Suc (pulled items s)"
      using Yield by (simp add: pulled_iterator)
    have "valid_task P items (Suc (pulled items s)) t" if "t \<in> set (tasks s)" for t
      using Yield(3) by (intro valid_task_mono [OF v [OF that]]) simp_all
    moreover have "pulled items s \<notin> set (live_indices (tasks s))"
      using lt by blast
    ultimately show ?thesis
      using Yield d unfolding tasks_ok_def p'
      by (auto simp: less_Suc_eq_le Suc_le_eq)
  next
    case (Call i x A B)
    with d v show ?thesis
      by (auto simp: tasks_ok_def pulled_le)
  qed (use d v in \<open>auto simp: tasks_ok_def runner_def call_next_def\<close>)
qed

lemma count_ok_step:
  assumes "step P ev s = Some s'" and "sched_inv P items s" and "signal P = None"
    and "no_fail_fast_failure P items"
  shows "count_ok s'"
proof -
  from assms(2) have c: "count_ok s" by (simp add: sched_inv_def)
  from assms show ?thesis
    by (cases rule: sched_step_cases)
       (use c in \<open>auto simp: count_ok_def finish_flags\<close>)
qed

lemma result_at_store_at:
  "result_at (store_at i v xs) j = (if j = i then Some v else result_at xs j)"
  by (auto simp: result_at_def store_at_def nth_append nth_list_update)

lemma length_store_at: "length (store_at i v xs) = max (length xs) (Suc i)"
  by (auto simp: store_at_def)

lemma stored_Some_iff:
  "stored r = Some v \<Longrightarrow> \<not> is_Failure r \<and> (v = pMapSkip \<longleftrightarrow> r = Skip)"
  by (cases r) auto

lemma stored_ok_step:
  assumes "step P ev s = Some s'" and "sched_inv P items s" and "signal P = None"
    and "no_fail_fast_failure P items"
  shows "stored_ok P items s'"
proof -
  from assms(2) have "stored_ok P items s" by (simp add: sched_inv_def)
  then have len: "length (result s) \<le> pulled items s"
    and res: "\<And>i. result_at (result s) i =
            (if i \<in> finished_indices items s then stored (outcome_at P items i) else None)"
    and sk: "skippedIndexesMap s = {i \<in> finished_indices items s. outcome_at P items i = Skip}"
    by (simp_all add: stored_ok_def)
  from assms show ?thesis
  proof (cases rule: effect_cases)
    case Same
    with len res sk show ?thesis
      by (simp add: stored_ok_def)
  next
    case (Fail i e)
    have "result_at (result s) i = None"
      using res [of i] Fail(2) by simp
    with Fail len res sk show ?thesis
      by (auto simp: stored_ok_def)
  next
    case (Store i r v)
    note iff = stored_Some_iff [OF Store(4)]
    have "length (result s') \<le> pulled items s'"
      using Store len by (simp add: length_store_at)
    moreover have "result_at (result s') j =
            (if j \<in> finished_indices items s' then stored (outcome_at P items j) else None)" for j
      using Store res [of j] by (simp add: result_at_store_at)
    moreover have "skippedIndexesMap s' =
        {i \<in> finished_indices items s'. outcome_at P items i = Skip}"
      using Store sk iff by auto
    ultimately show ?thesis
      by (simp add: stored_ok_def)
  qed
qed

lemma errors_ok_step:
  assumes "step P ev s = Some s'" and "sched_inv P items s" and "signal P = None"
    and "no_fail_fast_failure P items"
  shows "errors_ok P items s'"
proof -
  from assms(2) have "errors_ok P items s" by (simp add: sched_inv_def)
  then obtain fs where fs: "distinct fs"
    "set fs = {i \<in> finished_indices items s. is_Failure (outcome_at P items i)}"
    "errors s = concat (map (\<lambda>i. error_list (outcome_at P items i)) fs)"
    and c: "caught s = errors s"
    by (auto simp: errors_ok_def)
  from assms show ?thesis
  proof (cases rule: effect_cases)
    case Same
    with fs c show ?thesis
      unfolding errors_ok_def by (intro conjI exI [of _ fs]) simp_all
  next
    case (Fail i e)
    have "distinct (fs @ [i])"
      using fs Fail(2) by auto
    moreover have "set (fs @ [i]) =
        {i \<in> finished_indices items s'. is_Failure (outcome_at P items i)}"
      using fs Fail by auto
    moreover have "errors s' = concat (map (\<lambda>i. error_list (outcome_at P items i)) (fs @ [i]))"
      using fs Fail by simp
    ultimately show ?thesis
      unfolding errors_ok_def using c Fail by (intro conjI exI [of _ "fs @ [i]"]) simp_all
  next
    case (Store i r v)
    note iff = stored_Some_iff [OF Store(4)]
    have "set fs = {i \<in> finished_indices items s'. is_Failure (outcome_at P items i)}"
      using fs Store iff by auto
    with fs c Store show ?thesis
      unfolding errors_ok_def by (intro conjI exI [of _ fs]) simp_all
  qed
qed

lemma final_cong:
  "result s' = result s \<Longrightarrow> skippedIndexesMap s' = skippedIndexesMap s \<Longrightarrow>
   errors s' = errors s \<Longrightarrow> final P s' = final P s"
  by (simp add: final_def)

lemma settled_ok_step:
  assumes "step P ev s = Some s'" and "sched_inv P items s" and "signal P = None"
    and "no_fail_fast_failure P items"
  shows "settled_ok P s'"
proof -
  from assms(2) have st: "settled_ok P s" and c: "count_ok s" and f: "flags_ok s"
    by (simp_all add: sched_inv_def)
  from assms show ?thesis
  proof (cases rule: sched_step_cases)
    case (Done c' A B)
    show ?thesis
    proof (cases "isResolved s")
      case True
      with st Done show ?thesis
        by (auto simp: settled_ok_def finish_flags)
    next
      case False
      with c have "live_indices (tasks s) = []" if "resolvingCount s = 0"
        using that by (simp add: count_ok_def)
      with f Done False show ?thesis
        by (simp add: settled_ok_def finish_flags flags_ok_def)
    qed
  next
    case (RunnerNext i A B)
    with st show ?thesis by (auto simp: settled_ok_def)
  next
    case (Return c' A B)
    with st show ?thesis by (auto simp: settled_ok_def)
  qed (simp_all add: settled_ok_def)
qed

lemma pulls_upd [simp]: "pulls P (s\<lparr>tasks := ts\<rparr>) t = pulls P s t"
  by (cases "(P, s, t)" rule: pulls.cases) simp_all

lemma progress_ok_step:
  assumes "step P ev s = Some s'" and "sched_inv P items s" and "signal P = None"
    and "no_fail_fast_failure P items"
  shows "progress_ok P s'"
proof -
  from assms(2) have pr: "progress_ok P s" and c: "count_ok s" and f: "flags_ok s"
    by (simp_all add: sched_inv_def)
  from assms show ?thesis
  proof (cases rule: sched_step_cases)
    case (Done c' A B)
    show ?thesis
    proof (cases "resolvingCount s = 0 \<or> isResolved s")
      case True
      with Done show ?thesis by (auto simp: progress_ok_def finish_flags)
    next
      case False
      with c have "live_indices (tasks s) \<noteq> []" by (auto simp: count_ok_def)
      with Done show ?thesis by (auto simp: progress_ok_def)
    qed
  next
    case (RunnerNext i A B)
    show ?thesis
    proof (cases "isResolved s")
      case True
      with RunnerNext show ?thesis by (simp add: progress_ok_def)
    next
      case False
      with pr have w: "live_indices (tasks s) \<noteq> [] \<or> (\<exists>t \<in> set (tasks s). pulls P s t)"
        by (simp add: progress_ok_def)
      from f False have nr: "\<not> isRejected s" by (auto simp: flags_ok_def)
      show ?thesis
      proof (cases "pulls P s (AwaitNext (Runner i) None)")
        case True
        with nr False RunnerNext show ?thesis
          by (auto simp: progress_ok_def runner_def call_next_def)
      next
        case nope: False
        with w RunnerNext False show ?thesis
          unfolding progress_ok_def by auto
      qed
    qed
  next
    case (Return c' A B)
    from Return pr show ?thesis
      unfolding progress_ok_def by auto
  qed (simp_all add: progress_ok_def)
qed

lemma sched_inv_step:
  assumes "sched_inv P items s" and "signal P = None" and "no_fail_fast_failure P items"
    and "step P ev s = Some s'"
  shows "sched_inv P items s'"
proof -
  from assms(1) have "flags_ok s" by (simp add: sched_inv_def)
  from flags_ok_step [OF this assms(4)]
    source_ok_step [OF assms(4,1,2,3)] tasks_ok_step [OF assms(4,1,2,3)]
    count_ok_step [OF assms(4,1,2,3)] stored_ok_step [OF assms(4,1,2,3)]
    errors_ok_step [OF assms(4,1,2,3)] settled_ok_step [OF assms(4,1,2,3)]
    progress_ok_step [OF assms(4,1,2,3)]
  show ?thesis by (simp add: sched_inv_def)
qed

lemma sched_inv_start:
  assumes "1 \<le> concurrency P" and "signal P = None"
  shows "sched_inv P items (start P (map Yields items) False)"
  by (simp add: sched_inv_def start_unaborted [OF assms(1)] assms(2) flags_ok_def source_ok_def
      pulled_def tasks_ok_def count_ok_def stored_ok_def finished_indices_def result_at_def
      errors_ok_def settled_ok_def progress_ok_def)

lemma sched_inv_run:
  assumes "1 \<le> concurrency P" and "signal P = None" and "no_fail_fast_failure P items"
    and "run P evs (start P (map Yields items) False) = Some s"
  shows "sched_inv P items s"
  by (rule run_invariant [where I = "sched_inv P items", OF _ sched_inv_start [OF assms(1,2)] assms(4)])
     (rule sched_inv_step [OF _ assms(2,3)])

lemma pureResult_map:
  "pureResult S (map f [0..<n]) = map f (filter (\<lambda>i. i \<notin> S) [0..<n])"
proof -
  have "List.enumerate 0 (map f [0..<n]) = map (\<lambda>i. (i, f i)) [0..<n]"
    by (induction n) (simp_all add: enumerate_append_eq)
  then show ?thesis
    by (simp add: pureResult_def filter_map comp_def)
qed

lemma compaction:
  assumes "\<forall>i \<in> set js. \<not> is_Failure (out i)"
  shows "map (\<lambda>i. stored (out i)) (filter (\<lambda>i. out i \<noteq> Skip) js) = values_in_order (map out js)"
  using assms
proof (induction js)
  case Nil
  then show ?case by simp
next
  case (Cons j js)
  then show ?case by (cases "out j") simp_all
qed


text \<open>The state in which \<^verbatim>\<open>next()\<close> settles the promise.\<close>

lemma settled_state:
  assumes inv: "sched_inv P items s" and r: "isResolved s"
  shows "iterator s = []" "live_indices (tasks s) = []" "promise s = Some (final P s)"
    "finished_indices items s = {0..<length items}"
proof -
  from inv r show a: "iterator s = []" "live_indices (tasks s) = []"
    "promise s = Some (final P s)"
    by (simp_all add: sched_inv_def settled_ok_def)
  then show "finished_indices items s = {0..<length items}"
    by (auto simp: finished_indices_def pulled_def)
qed

lemma settled_without_failure:
  assumes inv: "sched_inv P items s" and r: "isResolved s"
    and ok: "\<forall>i < length items. \<not> is_Failure (outcome_at P items i)"
  shows "promise s = Some (Resolved (values_in_order (outcomes P items)))"
proof -
  note st = settled_state [OF inv r]
  let ?n = "length items"
  let ?out = "outcome_at P items"
  from inv have so: "stored_ok P items s" and eo: "errors_ok P items s"
    by (simp_all add: sched_inv_def)
  from so st have len: "length (result s) \<le> ?n"
    and res: "\<And>i. result_at (result s) i = (if i < ?n then stored (?out i) else None)"
    and sk: "skippedIndexesMap s = {i. i < ?n \<and> ?out i = Skip}"
    by (auto simp: stored_ok_def pulled_def)
  from eo st ok have e: "errors s = []"
    by (auto simp: errors_ok_def)
  have some: "stored (?out i) \<noteq> None" if "i < ?n" for i
    using ok that by (cases "?out i") auto
  have "?n \<le> length (result s)"
  proof (rule ccontr)
    assume "\<not> ?n \<le> length (result s)"
    then have "length (result s) < ?n" by simp
    with res [of "length (result s)"] some [of "length (result s)"] show False
      by (simp add: result_at_def)
  qed
  with len have l: "length (result s) = ?n" by simp
  have result: "result s = map (\<lambda>i. stored (?out i)) [0..<?n]"
  proof (rule nth_equalityI)
    show "length (result s) = length (map (\<lambda>i. stored (?out i)) [0..<?n])"
      by (simp add: l)
  next
    fix i assume "i < length (result s)"
    with res [of i] l show "result s ! i = map (\<lambda>i. stored (?out i)) [0..<?n] ! i"
      by (simp add: result_at_def)
  qed
  have filt: "filter (\<lambda>i. i \<notin> skippedIndexesMap s) [0..<?n] = filter (\<lambda>i. ?out i \<noteq> Skip) [0..<?n]"
    by (rule filter_cong) (auto simp: sk)
  have all: "\<forall>i \<in> set [0..<?n]. \<not> is_Failure (?out i)"
    using ok by simp
  have pure: "pureResult (skippedIndexesMap s) (result s) = values_in_order (outcomes P items)"
    unfolding result pureResult_map filt outcomes_def
    by (rule compaction [OF all])
  have "result s = values_in_order (outcomes P items)" if "skippedIndexesMap s = {}"
  proof -
    from that have "filter (\<lambda>i. i \<notin> skippedIndexesMap s) [0..<?n] = [0..<?n]" by simp
    with pure show ?thesis
      by (simp add: result pureResult_map)
  qed
  with pure e st(3) show ?thesis
    by (simp add: final_def)
qed


lemma quiescent_resolved:
  assumes inv: "sched_inv P items s" and q: "quiescent P s"
  shows "isResolved s"
proof (rule ccontr)
  assume n: "\<not> isResolved s"
  from q have fin: "\<And>t. t \<in> set (tasks s) \<Longrightarrow> t = Finished"
    by (simp add: quiescent_def list_all_iff)
  have "task_index t = []" if "t \<in> set (tasks s)" for t
    using fin [OF that] by simp
  then have "live_indices (tasks s) = []"
    by (simp add: live_indices_def)
  moreover have "\<not> pulls P s t" if "t \<in> set (tasks s)" for t
    using fin [OF that] by simp
  ultimately show False
    using inv n by (auto simp: sched_inv_def progress_ok_def)
qed

lemma resolved_iff_settled: "sched_inv P items s \<Longrightarrow> isResolved s \<longleftrightarrow> promise s \<noteq> None"
  by (auto simp: sched_inv_def flags_ok_def)


section \<open>pMap: every run is finite\<close>

lemma latch_ok_step:
  assumes "latch_ok s" and "step P ev s = Some s'"
  shows "latch_ok s'"
  using assms(2,1)
  by (cases rule: step_cases) (auto simp: latch_ok_def finish_flags)

lemma latch_ok_start: "1 \<le> concurrency P \<Longrightarrow> latch_ok (start P src b)"
  by (cases b; cases "signal P")
     (auto simp: latch_ok_def start_unaborted start_aborted start_def Let_def runner_0 call_next_def)

lemma weight_mono:
  assumes "isIterableDone s \<longrightarrow> isIterableDone s'" and "isRejected s \<longrightarrow> isRejected s'"
  shows "weight s' t \<le> weight s t"
  using assms by (cases "(s, t)" rule: weight.cases) auto

lemma weight_le: "weight s t \<le> 4"
  by (cases "(s, t)" rule: weight.cases) auto

lemma sum_weight_mono:
  assumes "isIterableDone s \<longrightarrow> isIterableDone s'" and "isRejected s \<longrightarrow> isRejected s'"
  shows "sum_list (map (weight s') ts) \<le> sum_list (map (weight s) ts)"
  by (rule sum_list_mono) (rule weight_mono [OF assms])

lemma remaining_decreases:
  assumes ts: "tasks s = A @ t # B" and ts': "tasks s' = A @ t' # B @ new"
    and f: "isIterableDone s \<longrightarrow> isIterableDone s'" "isRejected s \<longrightarrow> isRejected s'"
    and a: "aborted s' = aborted s"
    and lt: "7 * length (iterator s') + weight s' t' + sum_list (map (weight s') new)
             < 7 * length (iterator s) + weight s t"
  shows "remaining P s' < remaining P s"
proof -
  note m = sum_weight_mono [OF f]
  from m [of A] m [of B] lt show ?thesis
    by (simp add: remaining_def ts ts' a)
qed

lemma weight_call_next: "c = TryBlock \<or> c = CatchBlock \<Longrightarrow> weight s (call_next c s') \<le> 2"
  by (auto simp: call_next_def)

lemma weight_done: "isIterableDone s \<Longrightarrow> weight s (AwaitNext c None) = 1"
  by (cases c) simp_all

lemma remaining_step:
  assumes "latch_ok s" and "step P ev s = Some s'"
  shows "remaining P s' < remaining P s"
  using assms(2)
proof (cases rule: step_cases)
  case (Done k c A B)
  show ?thesis
    by (rule remaining_decreases [OF Done(2), of s' "AwaitNext c None" "[]"])
       (simp_all add: Done(4,5) finish_flags weight_done)
next
  case (Raise k c A B e rest)
  show ?thesis
    using weight_le [of s' "AwaitNext c (Some e)"]
    by (intro remaining_decreases [OF Raise(2), of s' "AwaitNext c (Some e)" "[]"])
       (simp_all add: Raise(4,5))
next
  case (Yield k c A B x rest)
  show ?thesis
    using weight_le [of s' "AwaitNext c None"]
    by (intro remaining_decreases [OF Yield(2), of s' "AwaitNext c None" "[AwaitItem (currentIndex s) x]"])
       (simp_all add: Yield(4,5))
next
  case (CallerErr k c A B e)
  have "weight s (AwaitNext c (Some e)) = 1"
    using CallerErr(4) by (cases c) simp_all
  then show ?thesis
    by (intro remaining_decreases [OF CallerErr(2), of s' Finished "[]"])
       (simp_all add: CallerErr(5))
next
  case (RunnerNext k i A B)
  show ?thesis
  proof (cases "isIterableDone s \<or> isRejected s")
    case True
    then show ?thesis
      by (intro remaining_decreases [OF RunnerNext(2), of s' Finished "[]"])
         (auto simp: RunnerNext(4))
  next
    case False
    with assms(1) have "\<not> isResolved s" by (auto simp: latch_ok_def)
    then have "weight s' (runner P (i + 1) s) \<le> 2"
      by (auto simp: runner_def call_next_def)
    with False show ?thesis
      by (intro remaining_decreases [OF RunnerNext(2), of s' "runner P (i + 1) s" "[]"])
         (auto simp: RunnerNext(4))
  qed
next
  case (CaughtStop k t A B e)
  from CaughtStop(4) have "0 < weight s t"
    by (cases t rule: throws.cases) simp_all
  then show ?thesis
    by (intro remaining_decreases [OF CaughtStop(2), of s' Finished "[]"])
       (simp_all add: CaughtStop(6))
next
  case (CaughtCollect k t A B e)
  from CaughtCollect(4) have "2 < weight s t"
    by (cases t rule: throws.cases) simp_all
  with weight_call_next [of CatchBlock s' s] show ?thesis
    by (intro remaining_decreases [OF CaughtCollect(2), of s' "call_next CatchBlock s" "[]"])
       (simp_all add: CaughtCollect(6))
next
  case (Return k c A B)
  from Return(4) have "weight s (AwaitNext c None) = 1" by auto
  then show ?thesis
    by (intro remaining_decreases [OF Return(2), of s' Finished "[]"])
       (simp_all add: Return(5))
next
  case (ItemLate k i x A B)
  show ?thesis
    by (intro remaining_decreases [OF ItemLate(2), of s' Finished "[]"])
       (simp_all add: ItemLate(5))
next
  case (Call k i x A B)
  show ?thesis
    by (intro remaining_decreases [OF Call(2), of s' "AwaitMapper i (mapper P x i)" "[]"])
       (simp_all add: Call(5))
next
  case (Stored k i r v A B)
  from weight_call_next [of TryBlock s' s] show ?thesis
    by (intro remaining_decreases [OF Stored(2), of s' "call_next TryBlock s" "[]"])
       (simp_all add: Stored(5))
next
  case (Abort r)
  have f: "isIterableDone s \<longrightarrow> isIterableDone s'" "isRejected s \<longrightarrow> isRejected s'"
    and t: "tasks s' = tasks s" and i: "iterator s' = iterator s" and a: "aborted s'"
    by (simp_all add: Abort(4))
  from sum_weight_mono [OF f, of "tasks s"] Abort(2,3) show ?thesis
    by (simp add: remaining_def t i a)
qed

lemma remaining_run:
  assumes "latch_ok s" and "run P evs s = Some s'"
  shows "latch_ok s' \<and> remaining P s' + length evs \<le> remaining P s"
  using assms
proof (induction evs arbitrary: s)
  case Nil
  then show ?case by simp
next
  case (Cons ev evs)
  then obtain s1 where s1: "step P ev s = Some s1" and rest: "run P evs s1 = Some s'"
    by (auto split: option.splits)
  from Cons.IH [OF latch_ok_step [OF Cons.prems(1) s1] rest]
    remaining_step [OF Cons.prems(1) s1]
  show ?case by simp
qed

text \<open>From every state some run leads to a state in which nothing can happen.\<close>

lemma complete_run_exists:
  assumes "latch_ok s"
  shows "\<exists>evs s'. run P evs s = Some s' \<and> quiescent P s'"
  using assms
proof (induction "remaining P s" arbitrary: s rule: less_induct)
  case less
  show ?case
  proof (cases "quiescent P s")
    case True
    then have "run P [] s = Some s \<and> quiescent P s" by simp
    then show ?thesis by blast
  next
    case False
    then obtain ev s1 where s1: "step P ev s = Some s1"
      by (auto simp: quiescent_iff)
    from less.hyps [OF remaining_step [OF less.prems s1] latch_ok_step [OF less.prems s1]]
    obtain evs s' where "run P evs s1 = Some s'" "quiescent P s'" by blast
    with s1 have "run P (ev # evs) s = Some s' \<and> quiescent P s'" by simp
    then show ?thesis by blast
  qed
qed

section \<open>pMap: what the promise is settled with\<close>

lemma remaining_start:
  assumes "1 \<le> concurrency P" and "signal P = None"
  shows "remaining P (start P src False) = 7 * length src + 2"
  by (simp add: remaining_def start_unaborted [OF assms(1)] assms(2))


lemma after_pull_at_0: "after_pull_at P 0 c s = after_pull P c s"
  by (simp add: after_pull_at_def after_pull_def finish_def resolve_def reject_def settle_def
        cleanup_def Let_def split: list.splits pull.splits option.splits)

lemma run_any_Event: "run_any P (map Event evs) s = run P evs s"
  by (induction evs arbitrary: s) (simp_all add: step_any_def split: option.splits)

lemma in_order_Events: "in_order ds \<Longrightarrow> \<exists>evs. ds = map Event evs"
proof (induction ds)
  case Nil
  then show ?case by simp
next
  case (Cons d ds)
  then obtain evs where "ds = map Event evs"
    by (auto simp: in_order_def)
  moreover from Cons.prems obtain ev where "d = Event ev"
    by (cases d) (simp_all add: in_order_def)
  ultimately have "d # ds = map Event (ev # evs)" by simp
  then show ?case by (rule exI)
qed

lemma in_order_map_Event: "in_order (map Event evs)"
  by (simp add: in_order_def list_all_iff)

lemma pMap_accepts:
  assumes "pMap_source input = Some src"
    and "opt_concurrency opts = None \<or> opt_concurrency opts = Some PositiveInfinity \<or>
         (\<exists>n. opt_concurrency opts = Some (Integer n) \<and> 1 \<le> n \<and> n \<le> 2 ^ 53 - 1)"
  shows "\<exists>P s0. pMap input (Some f) opts = Inr (P, s0)"
  using assms
  by (auto simp: pMap_def valid_concurrency_def isSafeInteger_def Let_def)

text \<open>
  Claim C1.  Let pMap be called on a source that yields \<open>xs\<close>, each element settling, with
  a mapper of which no invocation fails, with any concurrency that is an integer from 1 to
  \<^verbatim>\<open>Number.MAX_SAFE_INTEGER\<close> or is \<^verbatim>\<open>Infinity\<close> (given or by default), and without a signal.  Then the call is
  accepted.  When the source answers its calls in order, every run is finite (at most
  \<open>7 * length xs + 2\<close> steps), the promise is never settled with anything but the mapped
  values in the order of the input, the skipped ones left out, and when nothing more can
  happen the promise is resolved to exactly that list; a run to such a state exists.
\<close>

theorem pMap_resolves_in_input_order:
  fixes f :: "'a \<Rightarrow> nat \<Rightarrow> ('b, 'e) outcome" and opts :: "'e options"
  assumes "pMap_source input = Some (map (\<lambda>x. Yields (Settles x)) xs)"
    and "opt_concurrency opts = None \<or> opt_concurrency opts = Some PositiveInfinity \<or>
         (\<exists>n. opt_concurrency opts = Some (Integer n) \<and> 1 \<le> n \<and> n \<le> 2 ^ 53 - 1)"
    and "opt_signal opts = None"
    and "\<forall>i < length xs. \<not> is_Failure (f (xs ! i) i)"
  shows "\<exists>P s0. pMap input (Some f) opts = Inr (P, s0) \<and>
           (\<forall>ds s. in_order ds \<and> run_any P ds s0 = Some s \<longrightarrow>
              length ds \<le> 7 * length xs + 2 \<and>
              (promise s = None \<or>
               promise s = Some (Resolved (values_in_order
                  (map (\<lambda>i. f (xs ! i) i) [0..<length xs])))) \<and>
              (quiescent P s \<longrightarrow>
               promise s = Some (Resolved (values_in_order
                  (map (\<lambda>i. f (xs ! i) i) [0..<length xs]))))) \<and>
           (\<exists>ds s. in_order ds \<and> run_any P ds s0 = Some s \<and> quiescent P s)"
proof -
  from pMap_accepts [OF assms(1,2)] obtain P s0
    where acc: "pMap input (Some f) opts = Inr (P, s0)"
    by blast
  define items :: "('a, 'e) item list" where "items = map Settles xs"
  let ?src = "map Yields items"
  let ?res = "Resolved (values_in_order (map (\<lambda>i. f (xs ! i) i) [0..<length xs]))"
  from acc obtain src where c: "1 \<le> concurrency P"
    and src: "pMap_source input = Some src"
    and m: "mapper P = f"
    and sg: "signal P = None"
    and s0: "s0 = start P src False"
    by (rule pMap_Inr) (simp add: assms(3))
  from src assms(1) have s0: "s0 = start P ?src False"
    by (simp add: s0 items_def comp_def)
  have len: "length items = length xs" by (simp add: items_def)
  have out: "outcome_at P items i = f (xs ! i) i" if "i < length xs" for i
    using that by (simp add: outcome_at_def items_def m)
  have outs: "outcomes P items = map (\<lambda>i. f (xs ! i) i) [0..<length xs]"
    unfolding outcomes_def len by (intro map_cong) (simp_all add: out)
  have ok: "\<forall>i < length items. \<not> is_Failure (outcome_at P items i)"
    using assms(4) by (simp add: out len)
  then have nf: "no_fail_fast_failure P items"
    by (simp add: no_fail_fast_failure_def)
  have l0: "latch_ok s0"
    by (simp add: s0 latch_ok_start [OF c])
  have main: "length ds \<le> 7 * length xs + 2 \<and>
        (promise s = None \<or> promise s = Some ?res) \<and>
        (quiescent P s \<longrightarrow> promise s = Some ?res)"
    if ord: "in_order ds" and run: "run_any P ds s0 = Some s" for ds s
  proof -
    from in_order_Events [OF ord] obtain evs where ds: "ds = map Event evs"
      by blast
    from run have run: "run P evs s0 = Some s"
      by (simp add: ds run_any_Event)
    from run have inv: "sched_inv P items s"
      unfolding s0 by (rule sched_inv_run [OF c sg nf])
    from remaining_run [OF l0 run] have "length evs \<le> remaining P s0" by simp
    then have n: "length ds \<le> 7 * length xs + 2"
      by (simp add: s0 remaining_start [OF c sg] len ds)
    have r: "promise s = Some ?res" if "isResolved s"
      using settled_without_failure [OF inv that ok] by (simp add: outs)
    have "promise s = None \<or> promise s = Some ?res"
      using r resolved_iff_settled [OF inv] by blast
    moreover have "promise s = Some ?res" if "quiescent P s"
      using r quiescent_resolved [OF inv that] by blast
    ultimately show ?thesis using n by blast
  qed
  from complete_run_exists [OF l0, of P] obtain evs s
    where "run P evs s0 = Some s" "quiescent P s"
    by blast
  then have "in_order (map Event evs) \<and> run_any P (map Event evs) s0 = Some s \<and> quiescent P s"
    by (simp add: run_any_Event in_order_map_Event)
  then have "\<exists>ds s. in_order ds \<and> run_any P ds s0 = Some s \<and> quiescent P s"
    by blast
  with acc main show ?thesis
    by blast
qed

theorem pMap_resolves_in_input_order_witness:
  "case pMap (SyncIterable [Yields (Settles (1::int)), Yields (Settles 2), Yields (Settles 3)])
          (Some (\<lambda>x i. (Value (2 * x) :: (int, nat) outcome)))
          \<lparr>opt_concurrency = Some (Integer 2), opt_stopOnError = None, opt_signal = None\<rparr> of
     Inl _ \<Rightarrow> False
   | Inr (P, s0) \<Rightarrow>
       (case run_any P (map Event (map Resume [0, 0, 0, 0, 1, 1, 1, 1, 2, 2, 2, 2, 3, 3, 3, 3])) s0 of
          None \<Rightarrow> False
        | Some s \<Rightarrow>
            quiescent P s \<and>
            promise s = Some (Resolved [Some (Val 2), Some (Val 4), Some (Val 6)]))"
proof -
  let ?input = "SyncIterable [Yields (Settles (1::int)), Yields (Settles 2), Yields (Settles 3)]"
  let ?f = "\<lambda>x i. (Value (2 * x) :: (int, nat) outcome)"
  let ?opts = "\<lparr>opt_concurrency = Some (Integer 2), opt_stopOnError = None,
                 opt_signal = (None :: nat abort_signal option)\<rparr>"
  let ?ds = "map Event (map Resume [0, 0, 0, 0, 1, 1, 1, 1, 2, 2, 2, 2, 3, 3, 3, 3])"
  have "\<exists>P s0. pMap ?input (Some ?f) ?opts = Inr (P, s0) \<and>
           (\<forall>ds s. in_order ds \<and> run_any P ds s0 = Some s \<longrightarrow>
              length ds \<le> 7 * length [1, 2, 3::int] + 2 \<and>
              (promise s = None \<or>
               promise s = Some (Resolved (values_in_order
                  (map (\<lambda>i. ?f ([1, 2, 3] ! i) i) [0..<length [1, 2, 3::int]])))) \<and>
              (quiescent P s \<longrightarrow>
               promise s = Some (Resolved (values_in_order
                  (map (\<lambda>i. ?f ([1, 2, 3] ! i) i) [0..<length [1, 2, 3::int]]))))) \<and>
           (\<exists>ds s. in_order ds \<and> run_any P ds s0 = Some s \<and> quiescent P s)"
    by (rule pMap_resolves_in_input_order) (simp_all add: pMap_source_def)
  then obtain P s0 where acc: "pMap ?input (Some ?f) ?opts = Inr (P, s0)"
    and all: "\<And>ds s. in_order ds \<Longrightarrow> run_any P ds s0 = Some s \<Longrightarrow> quiescent P s \<Longrightarrow>
       promise s = Some (Resolved (values_in_order
                  (map (\<lambda>i. ?f ([1, 2, 3] ! i) i) [0..<length [1, 2, 3::int]])))"
    by blast
  have run: "case pMap ?input (Some ?f) ?opts of Inl _ \<Rightarrow> False
     | Inr (P, s0) \<Rightarrow> (case run_any P ?ds s0 of None \<Rightarrow> False | Some s \<Rightarrow> quiescent P s)"
    by (simp add: pmap_defs step_any_def quiescent_def)
  with acc obtain s where s: "run_any P ?ds s0 = Some s" "quiescent P s"
    by (auto split: option.splits)
  from all [OF in_order_map_Event s [unfolded map_map [symmetric]]]
  show ?thesis
    using acc s by (simp add: upt_rec)
qed

text \<open>
  Claim C1 as stated, for every input iterable, fails at
  \<^verbatim>\<open>pMap(source, x => 2 * x, {concurrency: 2})\<close> for an asynchronous iterable that yields 1
  and 2 and settles the promise of its third \<^verbatim>\<open>next()\<close> call before that of the second.
  The runner loop's second call (for 2) and the call of the first task's \<^verbatim>\<open>try\<close> block
  (answered \<^verbatim>\<open>{done: true}\<close>) are outstanding together; the latter resumes first, finds
  \<^verbatim>\<open>resolvingCount\<close> at 0 and resolves the promise with \<^verbatim>\<open>[2]\<close>.  The element 2 arrives
  afterwards and its task returns at \<^verbatim>\<open>if (isResolved)\<close>: the mapper is never called on it.
\<close>

theorem out_of_order_source_loses_an_element:
  "case pMap (AsyncIterable [Yields (Settles (1::int)), Yields (Settles 2)])
          (Some (\<lambda>x i. (Value (2 * x) :: (int, nat) outcome)))
          \<lparr>opt_concurrency = Some (Integer 2), opt_stopOnError = None, opt_signal = None\<rparr> of
     Inl _ \<Rightarrow> False
   | Inr (P, s0) \<Rightarrow>
       (case run_any P [Event (Resume 0), Event (Resume 1), Event (Resume 0), Event (Resume 1),
                        Overtake 1 1,
                        Event (Resume 1), Event (Resume 0), Event (Resume 2), Event (Resume 0)] s0 of
          None \<Rightarrow> False
        | Some s \<Rightarrow>
            promise s = Some (Resolved [Some (Val 2)]) \<and>
            promise s \<noteq> Some (Resolved (values_in_order [Value 2, Value 4])) \<and>
            mapper_calls s = [(1, 0)] \<and> quiescent P s)"
  by (simp add: pmap_defs step_any_def after_pull_at_def pending_pulls_def quiescent_def)

text \<open>
  The same source behaviour changes the order: for an asynchronous iterable that yields 1,
  2 and 3 and settles its third call (for 3) before its second (for 2), and the later
  calls after these, the element 3 receives index 1 and the element 2 index 2, and
  \<^verbatim>\<open>pMap(source, x => 2 * x, {concurrency: 2})\<close> resolves to \<^verbatim>\<open>[2, 6, 4]\<close>.
\<close>

lemma out_of_order_source_changes_the_order:
  "case pMap (AsyncIterable [Yields (Settles (1::int)), Yields (Settles 2), Yields (Settles 3)])
          (Some (\<lambda>x i. (Value (2 * x) :: (int, nat) outcome)))
          \<lparr>opt_concurrency = Some (Integer 2), opt_stopOnError = None, opt_signal = None\<rparr> of
     Inl _ \<Rightarrow> False
   | Inr (P, s0) \<Rightarrow>
       (case run_any P [Event (Resume 0), Event (Resume 1), Event (Resume 0), Event (Resume 1),
                        Overtake 1 1,
                        Event (Resume 2), Event (Resume 1), Event (Resume 2), Event (Resume 0),
                        Event (Resume 3), Event (Resume 0), Event (Resume 3), Event (Resume 2),
                        Event (Resume 2), Event (Resume 3), Event (Resume 3)] s0 of
          None \<Rightarrow> False
        | Some s \<Rightarrow>
            promise s = Some (Resolved [Some (Val 2), Some (Val 6), Some (Val 4)]) \<and>
            mapper_calls s = [(1, 0), (3, 1), (2, 2)] \<and> quiescent P s)"
  by (simp add: pmap_defs step_any_def after_pull_at_def pending_pulls_def quiescent_def)



section \<open>pMap: the first error under stopOnError\<close>

lemma fail_fast_ok_reject:
  assumes inv: "fail_fast_ok s"
    and sub: "set (live_indices ts) \<subseteq> set (live_indices (tasks s))"
  shows "fail_fast_ok ((reject (Thrown e) (s\<lparr>caught := caught s @ [e]\<rparr>))\<lparr>tasks := ts\<rparr>)"
proof (cases "promise s")
  case None
  with inv show ?thesis
    by (auto simp: fail_fast_ok_def count_ok_def flags_ok_def)
next
  case (Some x)
  show ?thesis
  proof (cases x)
    case (Resolved v)
    with Some inv sub show ?thesis
      by (auto simp: fail_fast_ok_def count_ok_def flags_ok_def)
  next
    case (Rejected r)
    with Some inv show ?thesis
      by (auto simp: fail_fast_ok_def count_ok_def flags_ok_def)
  qed
qed

lemma fail_fast_ok_step:
  assumes "fail_fast_ok s" and "stopOnError P" and "signal P = None"
    and "step P ev s = Some s'"
  shows "fail_fast_ok s'"
proof -
  from assms(1) have f: "flags_ok s" by (simp add: fail_fast_ok_def)
  have f': "flags_ok s'" by (rule flags_ok_step [OF f assms(4)])
  from assms(4) show ?thesis
  proof (cases rule: step_cases)
    case (Done k c A B)
    from assms(1) have z: "live_indices (tasks s) = []" if "resolvingCount s = 0" "\<not> isResolved s"
      using that by (simp add: fail_fast_ok_def count_ok_def)
    from assms(1,2) f' Done z show ?thesis
      by (auto simp: fail_fast_ok_def count_ok_def finish_flags final_def flags_ok_def)
  next
    case (CallerErr k c A B e)
    show ?thesis
      unfolding CallerErr(5)
      by (rule fail_fast_ok_reject [OF assms(1)]) (simp add: CallerErr(2))
  next
    case (CaughtStop k t A B e)
    have "set (live_indices (A @ Finished # B)) \<subseteq> set (live_indices (tasks s))"
      by (auto simp: CaughtStop(2))
    show ?thesis
      unfolding CaughtStop(6)
      by (rule fail_fast_ok_reject [OF assms(1)]) fact
  next
    case (CaughtCollect k t A B e)
    with assms(2) show ?thesis by simp
  next
    case (Abort r)
    with assms(3) show ?thesis by simp
  qed (use assms(1) f' in \<open>auto simp: fail_fast_ok_def count_ok_def flags_ok_def\<close>)
qed

lemma fail_fast_ok_start:
  assumes "1 \<le> concurrency P" and "signal P = None"
  shows "fail_fast_ok (start P src False)"
  by (simp add: fail_fast_ok_def start_unaborted [OF assms(1)] count_ok_def flags_ok_def)

lemma caught_grows_step:
  assumes "step P ev s = Some s'"
  shows "\<exists>zs. caught s' = caught s @ zs"
  using assms by (cases rule: step_cases) auto

lemma caught_grows_run:
  assumes "run P evs s = Some s'"
  shows "\<exists>zs. caught s' = caught s @ zs"
  using assms
proof (induction evs arbitrary: s)
  case Nil
  then show ?case by simp
next
  case (Cons ev evs)
  then obtain s1 where s1: "step P ev s = Some s1" and rest: "run P evs s1 = Some s'"
    by (auto split: option.splits)
  from caught_grows_step [OF s1] Cons.IH [OF rest] show ?case
    by auto
qed

text \<open>
  Claim C4.  Let pMap be called with \<^verbatim>\<open>stopOnError\<close> true (or left out) and without a
  signal, on any source, and let it be in a state where a mapper invocation has failed
  with \<open>e\<close> and its task is about to observe that.  When the task resumes, the error is
  caught (\<open>caught\<close> grows by \<open>e\<close>) and the promise is rejected, with the first of all the
  errors caught so far, as it is and not wrapped: with \<open>e\<close> itself when none was caught
  before.  Nothing that happens later changes the promise or the first error.
\<close>

theorem fail_fast_rejects_with_first_error:
  assumes "pMap input f opts = Inr (P, s0)"
    and "opt_signal opts = None"
    and "opt_stopOnError opts = None \<or> opt_stopOnError opts = Some True"
    and "run P evs s0 = Some s"
    and "k < length (tasks s)" and "tasks s ! k = AwaitMapper i (Failure e)"
  shows "\<exists>s'. step P (Resume k) s = Some s' \<and> caught s' = caught s @ [e] \<and>
              promise s' = Some (Rejected (Thrown (hd (caught s')))) \<and>
              (\<forall>evs' s''. run P evs' s' = Some s'' \<longrightarrow>
                 promise s'' = Some (Rejected (Thrown (hd (caught s')))) \<and>
                 hd (caught s'') = hd (caught s'))"
proof -
  from assms(1) obtain src where c: "1 \<le> concurrency P"
    and sg: "signal P = None"
    and st: "stopOnError P = (case opt_stopOnError opts of None \<Rightarrow> True | Some b \<Rightarrow> b)"
    and s0: "s0 = start P src False"
    by (rule pMap_Inr) (simp add: assms(2))
  from st assms(3) have stop: "stopOnError P" by auto
  have inv: "fail_fast_ok s"
    by (rule run_invariant [where I = fail_fast_ok, OF _ _ assms(4)])
       (auto simp: s0 fail_fast_ok_start [OF c sg] intro: fail_fast_ok_step [OF _ stop sg])
  define s' where "s' = (reject (Thrown e) (s\<lparr>caught := caught s @ [e]\<rparr>))
                          \<lparr>tasks := (tasks s)[k := Finished]\<rparr>"
  have step: "step P (Resume k) s = Some s'"
    using assms(5,6) stop by (simp add: step_def catch_def s'_def)
  have c': "caught s' = caught s @ [e]"
    by (simp add: s'_def)
  have live: "live_indices (tasks s) \<noteq> []"
  proof -
    have "AwaitMapper i (Failure e) \<in> set (tasks s)"
      using assms(5,6) by (metis nth_mem)
    then have "i \<in> set (live_indices (tasks s))"
      by (auto simp: live_indices_member intro!: bexI [of _ "AwaitMapper i (Failure e)"])
    then show ?thesis by auto
  qed
  with inv have notres: "\<And>v. promise s \<noteq> Some (Resolved v)"
    by (auto simp: fail_fast_ok_def)
  have p: "promise s' = Some (Rejected (Thrown (hd (caught s'))))"
  proof (cases "promise s")
    case None
    with inv have "caught s = []"
      by (auto simp: fail_fast_ok_def flags_ok_def)
    with None show ?thesis by (simp add: s'_def)
  next
    case (Some x)
    with notres obtain r where x: "x = Rejected r" by (cases x) auto
    with Some inv notres have "caught s \<noteq> []" "r = Thrown (hd (caught s))"
      by (auto simp: fail_fast_ok_def)
    with Some x show ?thesis by (simp add: s'_def)
  qed
  have later: "promise s'' = Some (Rejected (Thrown (hd (caught s')))) \<and>
               hd (caught s'') = hd (caught s')"
    if "run P evs' s' = Some s''" for evs' s''
  proof -
    from caught_grows_run [OF that] obtain zs where "caught s'' = caught s' @ zs" by blast
    moreover from c' have "caught s' \<noteq> []" by simp
    ultimately have "hd (caught s'') = hd (caught s')" by simp
    with promise_run [OF p that] show ?thesis by simp
  qed
  from step c' p later show ?thesis by blast
qed

theorem fail_fast_rejects_with_first_error_witness:
  "\<exists>s'. step \<lparr>mapper = (\<lambda>x i. if x = 2 then Failure (7::nat) else (Value (2 * x) :: (int, nat) outcome)),
              concurrency = 2, stopOnError = True, signal = None\<rparr> (Resume 2)
          (the (run \<lparr>mapper = (\<lambda>x i. if x = 2 then Failure (7::nat) else (Value (2 * x) :: (int, nat) outcome)),
              concurrency = 2, stopOnError = True, signal = None\<rparr>
            (map Resume [0, 0, 0, 0, 1, 1, 1, 1, 2])
            (start \<lparr>mapper = (\<lambda>x i. if x = 2 then Failure (7::nat) else (Value (2 * x) :: (int, nat) outcome)),
              concurrency = 2, stopOnError = True, signal = None\<rparr>
              [Yields (Settles (1::int)), Yields (Settles 2), Yields (Settles 3)] False))) = Some s' \<and>
        promise s' = Some (Rejected (Thrown 7))"
  using fail_fast_rejects_with_first_error
    [of "SyncIterable [Yields (Settles (1::int)), Yields (Settles 2), Yields (Settles 3)]"
        "Some (\<lambda>x i. if x = 2 then Failure (7::nat) else (Value (2 * x) :: (int, nat) outcome))"
        "\<lparr>opt_concurrency = Some (Integer 2), opt_stopOnError = None, opt_signal = None\<rparr>"
        "\<lparr>mapper = (\<lambda>x i. if x = 2 then Failure (7::nat) else (Value (2 * x) :: (int, nat) outcome)),
              concurrency = 2, stopOnError = True, signal = None\<rparr>"
        "start \<lparr>mapper = (\<lambda>x i. if x = 2 then Failure (7::nat) else (Value (2 * x) :: (int, nat) outcome)),
              concurrency = 2, stopOnError = True, signal = None\<rparr>
              [Yields (Settles (1::int)), Yields (Settles 2), Yields (Settles 3)] False"
        "map Resume [0, 0, 0, 0, 1, 1, 1, 1, 2]"
        "the (run \<lparr>mapper = (\<lambda>x i. if x = 2 then Failure (7::nat) else (Value (2 * x) :: (int, nat) outcome)),
              concurrency = 2, stopOnError = True, signal = None\<rparr>
            (map Resume [0, 0, 0, 0, 1, 1, 1, 1, 2])
            (start \<lparr>mapper = (\<lambda>x i. if x = 2 then Failure (7::nat) else (Value (2 * x) :: (int, nat) outcome)),
              concurrency = 2, stopOnError = True, signal = None\<rparr>
              [Yields (Settles (1::int)), Yields (Settles 2), Yields (Settles 3)] False))"
        2 1 7]
  by (simp add: pmap_defs)

section \<open>pMap: the concurrency bound\<close>

lemma places_simps [simp]:
  "places [] = 0" "places (t # ts) = occupies t + places ts"
  "places (A @ B) = places A + places B"
  by (simp_all add: places_def)

lemma occupies_le: "occupies t \<le> 1"
  by (cases t rule: occupies.cases) simp_all

lemma occupies_call_next:
  "c = TryBlock \<or> c = CatchBlock \<Longrightarrow> occupies (call_next c s) \<le> 1 \<and> \<not> by_runner (call_next c s)"
  by (auto simp: call_next_def)

lemma running_le_places: "length (filter is_AwaitMapper ts) \<le> places ts"
proof (induction ts)
  case Nil
  then show ?case by simp
next
  case (Cons t ts)
  then show ?case by (cases t) simp_all
qed

lemma Suc_enat_le: "enat i < c \<Longrightarrow> n \<le> i + 1 \<Longrightarrow> enat n \<le> c"
  by (cases c) auto

lemma runner_ok_head:
  assumes "runner_ok P s" and "tasks s = [] @ t # B" and "step P (Resume 0) s = Some s'"
  shows "runner_ok P s'"
proof -
  from assms(1,2) have nb: "\<forall>t \<in> set B. \<not> by_runner t"
    by (simp add: runner_ok_def)
  from assms(3) show ?thesis
  proof (cases rule: step_cases)
    case (Done k c A B')
    with assms(1,2) nb show ?thesis
      by (cases A) (auto simp: runner_ok_def split: caller.splits)
  next
    case (Raise k c A B' e rest)
    with assms(1,2) nb show ?thesis
      by (cases A) (auto simp: runner_ok_def split: caller.splits)
  next
    case (Yield k c A B' x rest)
    with assms(1,2) nb show ?thesis
      by (cases A) (auto simp: runner_ok_def split: caller.splits)
  next
    case (CallerErr k c A B' e)
    with assms(1,2) nb show ?thesis
      by (cases A) (auto simp: runner_ok_def Suc_enat_le split: caller.splits)
  next
    case (RunnerNext k i A B')
    with assms(1,2) nb show ?thesis
      by (cases A)
         (auto simp: runner_ok_def runner_def call_next_def Suc_enat_le split: caller.splits)
  next
    case (CaughtStop k t' A B' e)
    with assms(1,2) show ?thesis
      by (cases A; cases t' rule: throws.cases) (auto simp: runner_ok_def)
  next
    case (CaughtCollect k t' A B' e)
    with assms(1,2) show ?thesis
      by (cases A; cases t' rule: throws.cases) (auto simp: runner_ok_def)
  next
    case (Return k c A B')
    with assms(1,2) show ?thesis
      by (cases A) (auto simp: runner_ok_def)
  next
    case (ItemLate k i x A B')
    with assms(1,2) show ?thesis
      by (cases A) (auto simp: runner_ok_def)
  next
    case (Call k i x A B')
    with assms(1,2) show ?thesis
      by (cases A) (auto simp: runner_ok_def)
  next
    case (Stored k i r v A B')
    with assms(1,2) show ?thesis
      by (cases A) (auto simp: runner_ok_def)
  qed simp
qed

text \<open>A function other than the runner resumes: it is replaced by one that holds no more
  places, and what it starts is not the runner.\<close>

lemma runner_ok_other:
  assumes inv: "runner_ok P s" and ts: "tasks s = (r # A) @ t # B"
    and ts': "tasks s' = (r # A) @ t' # B @ new"
    and le: "occupies t' + places new \<le> occupies t"
    and nb: "\<not> by_runner t'" "\<forall>u \<in> set new. \<not> by_runner u"
  shows "runner_ok P s'"
proof -
  define ts0 where "ts0 = A @ t # B"
  define ts1 where "ts1 = A @ t' # B @ new"
  have p: "places ts1 \<le> places ts0"
    using le by (simp add: ts0_def ts1_def)
  have s: "tasks s = r # ts0" and s': "tasks s' = r # ts1"
    by (simp_all add: ts ts' ts0_def ts1_def)
  from inv s have "\<forall>u \<in> set ts0. \<not> by_runner u"
    by (simp add: runner_ok_def)
  with nb have b: "\<forall>u \<in> set ts1. \<not> by_runner u"
    by (auto simp: ts0_def ts1_def)
  from p have pe: "enat (places ts0) \<le> c \<Longrightarrow> enat (places ts1) \<le> c" for c
    by (meson enat_ord_simps(1) order_trans)
  from inv p b pe show ?thesis
    unfolding runner_ok_def s s'
    by (auto split: task.splits caller.splits)
qed

lemma runner_ok_step:
  assumes inv: "runner_ok P s" and step: "step P ev s = Some s'"
  shows "runner_ok P s'"
proof (cases "ev = Resume 0")
  case True
  from inv obtain r ts where "tasks s = r # ts"
    by (cases "tasks s") (auto simp: runner_ok_def)
  then have "tasks s = [] @ r # ts" by simp
  from runner_ok_head [OF inv this] step True show ?thesis by simp
next
  case False
  have split: "\<exists>r A'. A = r # A'" if "length A = k" "ev = Resume k"
    for A :: "('a, 'b, 'c) task list" and k
    using that False by (cases A) auto
  from step show ?thesis
  proof (cases rule: step_cases)
    case (Done k c A B)
    from split [OF Done(3,1)] obtain r A' where A: "A = r # A'" by blast
    from inv Done(2) have c: "c = TryBlock \<or> c = CatchBlock"
      by (cases c) (auto simp: runner_ok_def A)
    show ?thesis
      by (rule runner_ok_other [OF inv Done(2) [unfolded A], of s' "AwaitNext c None" "[]"])
         (use c in \<open>auto simp: Done(5) A\<close>)
  next
    case (Raise k c A B e rest)
    from split [OF Raise(3,1)] obtain r A' where A: "A = r # A'" by blast
    from inv Raise(2) have c: "c = TryBlock \<or> c = CatchBlock"
      by (cases c) (auto simp: runner_ok_def A)
    show ?thesis
      by (rule runner_ok_other [OF inv Raise(2) [unfolded A], of s' "AwaitNext c (Some e)" "[]"])
         (use c in \<open>auto simp: Raise(5) A\<close>)
  next
    case (Yield k c A B x rest)
    from split [OF Yield(3,1)] obtain r A' where A: "A = r # A'" by blast
    from inv Yield(2) have c: "c = TryBlock \<or> c = CatchBlock"
      by (cases c) (auto simp: runner_ok_def A)
    show ?thesis
      by (rule runner_ok_other [OF inv Yield(2) [unfolded A], of s' "AwaitNext c None"
            "[AwaitItem (currentIndex s) x]"])
         (use c in \<open>auto simp: Yield(5) A\<close>)
  next
    case (CallerErr k c A B e)
    from split [OF CallerErr(3,1)] obtain r A' where A: "A = r # A'" by blast
    show ?thesis
      by (rule runner_ok_other [OF inv CallerErr(2) [unfolded A], of s' Finished "[]"])
         (simp_all add: CallerErr(5) A)
  next
    case (RunnerNext k i A B)
    from split [OF RunnerNext(3,1)] obtain r A' where A: "A = r # A'" by blast
    with inv RunnerNext(2) show ?thesis
      by (auto simp: runner_ok_def)
  next
    case (CaughtStop k t A B e)
    from split [OF CaughtStop(3,1)] obtain r A' where A: "A = r # A'" by blast
    show ?thesis
      by (rule runner_ok_other [OF inv CaughtStop(2) [unfolded A], of s' Finished "[]"])
         (simp_all add: CaughtStop(6) A)
  next
    case (CaughtCollect k t A B e)
    from split [OF CaughtCollect(3,1)] obtain r A' where A: "A = r # A'" by blast
    from CaughtCollect(4) have "occupies t = 1"
      by (cases t rule: throws.cases) simp_all
    with occupies_call_next [of CatchBlock s] show ?thesis
      by (intro runner_ok_other [OF inv CaughtCollect(2) [unfolded A], of s'
            "call_next CatchBlock s" "[]"])
         (simp_all add: CaughtCollect(6) A)
  next
    case (Return k c A B)
    from split [OF Return(3,1)] obtain r A' where A: "A = r # A'" by blast
    show ?thesis
      by (rule runner_ok_other [OF inv Return(2) [unfolded A], of s' Finished "[]"])
         (simp_all add: Return(5) A)
  next
    case (ItemLate k i x A B)
    from split [OF ItemLate(3,1)] obtain r A' where A: "A = r # A'" by blast
    show ?thesis
      by (rule runner_ok_other [OF inv ItemLate(2) [unfolded A], of s' Finished "[]"])
         (simp_all add: ItemLate(5) A)
  next
    case (Call k i x A B)
    from split [OF Call(3,1)] obtain r A' where A: "A = r # A'" by blast
    show ?thesis
      by (rule runner_ok_other [OF inv Call(2) [unfolded A], of s'
            "AwaitMapper i (mapper P x i)" "[]"])
         (simp_all add: Call(5) A)
  next
    case (Stored k i r' v A B)
    from split [OF Stored(3,1)] obtain r A' where A: "A = r # A'" by blast
    from occupies_call_next [of TryBlock s] show ?thesis
      by (intro runner_ok_other [OF inv Stored(2) [unfolded A], of s'
            "call_next TryBlock s" "[]"])
         (simp_all add: Stored(5) A)
  next
    case (Abort r)
    with inv show ?thesis
      by (auto simp: runner_ok_def)
  qed
qed

lemma runner_ok_start:
  assumes "1 \<le> concurrency P"
  shows "runner_ok P (start P src b)"
proof -
  have z: "enat 0 < concurrency P"
    using assms by (cases "concurrency P") (auto simp: one_enat_def)
  have t: "tasks (start P src b) = [AwaitIterator (Runner 0)] \<or>
           tasks (start P src b) = [AwaitNext (Runner 0) None]"
    by (cases b; cases "signal P")
       (auto simp: start_unaborted [OF assms] start_aborted [OF assms] start_def Let_def
          runner_0 [OF assms] call_next_def)
  then show ?thesis
    using z by (auto simp: runner_ok_def)
qed

text \<open>pMap keeps within the concurrency bound: whatever has happened since a call that
  passed validation, no more than \<^verbatim>\<open>concurrency\<close> mapper invocations are in flight.\<close>

lemma pMap_running_within_concurrency:
  assumes "pMap input f opts = Inr (P, s0)" and "run P evs s0 = Some s"
  shows "enat (running_mappers s) \<le> concurrency P"
proof -
  from assms(1) obtain src b where c: "1 \<le> concurrency P" and s0: "s0 = start P src b"
    by (rule pMap_Inr)
  have "runner_ok P s"
    by (rule run_invariant [where I = "runner_ok P", OF _ _ assms(2)])
       (auto simp: s0 runner_ok_start [OF c] intro: runner_ok_step)
  then obtain r ts where ts: "tasks s = r # ts" and r: "\<not> is_AwaitMapper r"
    and le: "enat (places ts) \<le> concurrency P"
    by (cases "tasks s")
       (auto simp: runner_ok_def Suc_enat_le split: task.splits caller.splits
          intro: order_trans [OF _ less_imp_le])
  then have "running_mappers s \<le> places ts"
    using running_le_places [of ts] by (simp add: running_mappers_def)
  with le show ?thesis
    by (meson enat_ord_simps(1) order_trans)
qed

end
